theory Spec2Isabelle
  imports Main "HOL-Library.Sublist" "HOL-Library.AList"
begin

section \<open>Strings and POSIX paths (node:path, String.prototype)\<close>

text \<open>
  Paths are strings, as in the handlers. The functions of \<open>node:path\<close> are modelled in
  their POSIX variant (\<open>path.sep\<close> is a slash). A string is a sequence of characters
  below 256; case folding acts on the ASCII letters.
\<close>

definition sep :: string where
  "sep = ''/''"

text \<open>\<open>String.prototype.toLowerCase\<close>, on ASCII letters.\<close>

definition lower_char :: "char \<Rightarrow> char" where
  "lower_char c =
     (case map_of (zip ''ABCDEFGHIJKLMNOPQRSTUVWXYZ'' ''abcdefghijklmnopqrstuvwxyz'') c of
        Some l \<Rightarrow> l
      | None \<Rightarrow> c)"

definition toLowerCase :: "string \<Rightarrow> string" where
  "toLowerCase s = map lower_char s"

text \<open>
  \<open>String.prototype.trim\<close>: white space and line terminators are removed at both ends.
  Among the characters below 256 these are the space, the tab, the line feed, the vertical
  tab, the form feed, the carriage return and the no-break space.
\<close>

definition is_space :: "char \<Rightarrow> bool" where
  "is_space c =
     (c \<in> set [CHR '' '', CHR 0x09, CHR 0x0A, CHR 0x0B, CHR 0x0C, CHR 0x0D, CHR 0xA0])"

definition trim :: "string \<Rightarrow> string" where
  "trim s = rev (dropWhile is_space (rev (dropWhile is_space s)))"

text \<open>\<open>String.prototype.startsWith\<close> and \<open>endsWith\<close>.\<close>

definition startsWith :: "string \<Rightarrow> string \<Rightarrow> bool" where
  "startsWith s p = prefix p s"

definition endsWith :: "string \<Rightarrow> string \<Rightarrow> bool" where
  "endsWith s p = suffix p s"

text \<open>Splitting a path at its slashes; \<open>''/a//b''\<close> gives \<open>['''', ''a'', '''', ''b'']\<close>.\<close>

fun split_sep :: "string \<Rightarrow> string list" where
  "split_sep [] = [[]]"
| "split_sep (c # cs) =
     (if c = CHR ''/'' then [] # split_sep cs
      else (case split_sep cs of [] \<Rightarrow> [[c]] | w # ws \<Rightarrow> (c # w) # ws))"

text \<open>
  One step of \<open>normalizeString\<close>: an empty segment and \<open>.\<close> are dropped, \<open>..\<close> removes the
  segment before it; above the root it is dropped for an absolute path and kept for a
  relative one.
\<close>

definition norm_step :: "bool \<Rightarrow> string list \<Rightarrow> string \<Rightarrow> string list" where
  "norm_step allowAboveRoot acc s =
     (if s = [] \<or> s = ''.'' then acc
      else if s = ''..'' then
        (if acc \<noteq> [] \<and> last acc \<noteq> ''..'' then butlast acc
         else if allowAboveRoot then acc @ [s] else acc)
      else acc @ [s])"

definition normalizeString :: "bool \<Rightarrow> string \<Rightarrow> string list" where
  "normalizeString allowAboveRoot p = foldl (norm_step allowAboveRoot) [] (split_sep p)"

fun join_segs :: "string list \<Rightarrow> string" where
  "join_segs [] = []"
| "join_segs [s] = s"
| "join_segs (s # t # ss) = s @ ''/'' @ join_segs (t # ss)"

definition isAbsolute :: "string \<Rightarrow> bool" where
  "isAbsolute p = (p \<noteq> [] \<and> hd p = CHR ''/'')"

text \<open>
  The environment of the process: its working directory, and the directories that
  Electron and the operating system report (\<open>app.getPath('userData')\<close>, \<open>os.tmpdir()\<close>),
  and the clock (\<open>Date.now()\<close>, in milliseconds).
\<close>

record env =
  cwd :: string
  userData :: string
  tmpdir :: string
  now :: int

text \<open>\<open>path.resolve(p)\<close>: a relative path is taken from the working directory.\<close>

definition resolve :: "env \<Rightarrow> string \<Rightarrow> string" where
  "resolve E p =
     ''/'' @ join_segs (normalizeString False (if isAbsolute p then p else cwd E @ ''/'' @ p))"

text \<open>\<open>path.normalize(p)\<close>.\<close>

definition normalize :: "string \<Rightarrow> string" where
  "normalize p =
     (if p = [] then ''.''
      else
        let isAbs = isAbsolute p;
            trailingSeparator = (last p = CHR ''/'');
            q = join_segs (normalizeString (\<not> isAbs) p)
        in if q = [] then (if isAbs then ''/'' else if trailingSeparator then ''./'' else ''.'')
           else (if isAbs then ''/'' else []) @ q @ (if trailingSeparator then ''/'' else []))"

text \<open>\<open>path.join(...)\<close>: the non-empty arguments are joined by a slash and normalized.\<close>

definition path_join :: "string list \<Rightarrow> string" where
  "path_join args =
     (let joined = join_segs (filter (\<lambda>a. a \<noteq> []) args)
      in if joined = [] then ''.'' else normalize joined)"

definition join :: "string \<Rightarrow> string \<Rightarrow> string" where
  "join a b = path_join [a, b]"

text \<open>
  \<open>path.dirname(p)\<close>: the path up to its last slash that is followed by a name; slashes at
  the end are skipped. \<open>dirname_scan\<close> is the loop, from the last character down to the
  second, over the reversed string; it gives the index \<open>end\<close>.
\<close>

fun dirname_scan :: "string \<Rightarrow> bool \<Rightarrow> nat option" where
  "dirname_scan [] matchedSlash = None"
| "dirname_scan [c] matchedSlash = None"
| "dirname_scan (c # d # r) matchedSlash =
     (if c = CHR ''/'' then
        (if \<not> matchedSlash then Some (Suc (length r)) else dirname_scan (d # r) matchedSlash)
      else dirname_scan (d # r) False)"

definition dirname :: "string \<Rightarrow> string" where
  "dirname p =
     (if p = [] then ''.''
      else
        let hasRoot = (hd p = CHR ''/'') in
        case dirname_scan (rev p) True of
          None \<Rightarrow> (if hasRoot then ''/'' else ''.'')
        | Some e \<Rightarrow> (if hasRoot \<and> e = 1 then ''//'' else take e p))"

section \<open>path-utils.ts\<close>

definition normalizePath :: "env \<Rightarrow> string \<Rightarrow> string" where
  "normalizePath E inputPath = (if isAbsolute inputPath then inputPath else resolve E inputPath)"

definition isSubdirectory :: "env \<Rightarrow> string \<Rightarrow> string \<Rightarrow> bool" where
  "isSubdirectory E parentPath childPath =
     (let normalizedParent = toLowerCase (resolve E parentPath) @ sep;
          normalizedChild = toLowerCase (resolve E childPath) @ sep
      in startsWith normalizedChild normalizedParent)"

text \<open>
  The two messages of \<open>pathsConflict\<close>: \<open>TargetInsideCurrent\<close> stands for the text saying
  that the target must not be a subdirectory of the current path (the source is the
  ancestor), \<open>CurrentInsideTarget\<close> for the text saying that the current path must not be
  a subdirectory of the target (the destination is the ancestor).
\<close>

datatype conflict = TargetInsideCurrent | CurrentInsideTarget

definition pathsConflict :: "env \<Rightarrow> string \<Rightarrow> string \<Rightarrow> conflict option" where
  "pathsConflict E source dest =
     (let normalizedSource = toLowerCase (resolve E source);
          normalizedDest = toLowerCase (resolve E dest)
      in if normalizedSource = normalizedDest then None
         else if isSubdirectory E source dest then Some TargetInsideCurrent
         else if isSubdirectory E dest source then Some CurrentInsideTarget
         else None)"

section \<open>storage-state.ts\<close>

record StorageConfig =
  basePath :: "string option"
  projectPath :: "string option"
  mediaPath :: "string option"
  autoCleanEnabled :: "bool option"
  autoCleanDays :: "int option"

definition DEFAULT_STORAGE_CONFIG :: StorageConfig where
  "DEFAULT_STORAGE_CONFIG =
     \<lparr>basePath = Some [], projectPath = Some [], mediaPath = Some [],
      autoCleanEnabled = Some False, autoCleanDays = Some 30\<rparr>"

text \<open>\<open>storageConfig.basePath?.trim()\<close> followed by the truthiness test of the result.\<close>

definition trimmed :: "string option \<Rightarrow> string option" where
  "trimmed v = (case v of None \<Rightarrow> None | Some s \<Rightarrow> (if trim s = [] then None else Some (trim s)))"

definition getStorageBasePath :: "env \<Rightarrow> StorageConfig \<Rightarrow> string" where
  "getStorageBasePath E storageConfig =
     (case trimmed (basePath storageConfig) of
        Some configured \<Rightarrow> normalizePath E configured
      | None \<Rightarrow>
          (case trimmed (projectPath storageConfig) of
             Some legacyProject \<Rightarrow> dirname (normalizePath E legacyProject)
           | None \<Rightarrow> userData E))"

section \<open>The file system (node:fs)\<close>

text \<open>
  The file system is a tree. A file has its bytes and its modification time in
  milliseconds; a directory has its entries, looked up by name (the first entry of a
  name counts).
\<close>

datatype node = File (fdata: string) (mtimeMs: int) | Dir "(string \<times> node) list"

datatype io_error =
    ENOENT | ENOTDIR | EEXIST | EISDIR | ENOTEMPTY
  | ERR_FS_CP_EINVAL | ERR_FS_CP_DIR_TO_NON_DIR | ERR_FS_CP_NON_DIR_TO_DIR
  | Injected nat

fun is_dir :: "node \<Rightarrow> bool" where
  "is_dir (Dir es) = True"
| "is_dir (File d t) = False"

fun lookup :: "node \<Rightarrow> string list \<Rightarrow> node option" where
  "lookup n [] = Some n"
| "lookup (File d t) (s # ss) = None"
| "lookup (Dir es) (s # ss) = (case map_of es s of None \<Rightarrow> None | Some c \<Rightarrow> lookup c ss)"

text \<open>
  \<open>alter f p t\<close> replaces what is at path \<open>p\<close> (\<open>None\<close>: nothing) by \<open>f\<close> of it, when the
  parent of \<open>p\<close> is a directory; the root itself is never removed.
\<close>

fun alter :: "(node option \<Rightarrow> node option) \<Rightarrow> string list \<Rightarrow> node \<Rightarrow> node" where
  "alter f [] n = (case f (Some n) of None \<Rightarrow> n | Some n' \<Rightarrow> n')"
| "alter f (s # ss) (File d t) = File d t"
| "alter f [s] (Dir es) =
     Dir (case f (map_of es s) of None \<Rightarrow> AList.delete s es | Some c \<Rightarrow> AList.update s c es)"
| "alter f (s # s' # ss) (Dir es) =
     (case map_of es s of
        None \<Rightarrow> Dir es
      | Some c \<Rightarrow> Dir (AList.update s (alter f (s' # ss) c) es))"

text \<open>\<open>mkdir -p\<close>: the missing directories of the path are created.\<close>

fun mkdirp :: "string list \<Rightarrow> node \<Rightarrow> io_error + node" where
  "mkdirp [] (Dir es) = Inr (Dir es)"
| "mkdirp [] (File d t) = Inl EEXIST"
| "mkdirp (s # ss) (File d t) = Inl ENOTDIR"
| "mkdirp (s # ss) (Dir es) =
     (case mkdirp ss (case map_of es s of None \<Rightarrow> Dir [] | Some c \<Rightarrow> c) of
        Inl e \<Rightarrow> Inl e
      | Inr c' \<Rightarrow> Inr (Dir (AList.update s c' es)))"

text \<open>
  Recursive copy with \<open>force\<close>, of a source node onto what is at the destination. A file
  replaces a file, a directory is merged into a directory entry by entry, in order; a
  file onto a directory or a directory onto a file is refused, and the copy stops there
  with what it has written so far. A written file has the time of the copy.
\<close>

function merge_node :: "int \<Rightarrow> node \<Rightarrow> node option \<Rightarrow> io_error option \<times> node option"
  and merge_entries ::
    "int \<Rightarrow> (string \<times> node) list \<Rightarrow> (string \<times> node) list \<Rightarrow> io_error option \<times> (string \<times> node) list"
where
  "merge_node t (File d t') None = (None, Some (File d t))"
| "merge_node t (File d t') (Some (File d2 t2)) = (None, Some (File d t))"
| "merge_node t (File d t') (Some (Dir ds)) = (Some ERR_FS_CP_NON_DIR_TO_DIR, Some (Dir ds))"
| "merge_node t (Dir ss) (Some (File d2 t2)) = (Some ERR_FS_CP_DIR_TO_NON_DIR, Some (File d2 t2))"
| "merge_node t (Dir ss) None = (case merge_entries t ss [] of (e, r) \<Rightarrow> (e, Some (Dir r)))"
| "merge_node t (Dir ss) (Some (Dir ds)) = (case merge_entries t ss ds of (e, r) \<Rightarrow> (e, Some (Dir r)))"
| "merge_entries t [] ds = (None, ds)"
| "merge_entries t ((n, s) # ss) ds =
     (case merge_node t s (map_of ds n) of
        (Some e, r) \<Rightarrow> (Some e, (case r of None \<Rightarrow> ds | Some c \<Rightarrow> AList.update n c ds))
      | (None, r) \<Rightarrow> merge_entries t ss (case r of None \<Rightarrow> ds | Some c \<Rightarrow> AList.update n c ds))"
  by pat_completeness auto
termination
  by (relation "measure (\<lambda>x. case x of
         Inl (t, s, d) \<Rightarrow> 2 * size s
       | Inr (t, ss, ds) \<Rightarrow> 2 * size_list (size_prod (\<lambda>_. 0) size) ss + 1)") auto

text \<open>
  What a copy that fails on the way has read of its source: the first \<open>k\<close> entries of the
  directory, in depth-first order.
\<close>

function trunc_entries :: "nat \<Rightarrow> (string \<times> node) list \<Rightarrow> nat \<times> (string \<times> node) list" where
  "trunc_entries k [] = (k, [])"
| "trunc_entries 0 (e # es) = (0, [])"
| "trunc_entries (Suc k) ((n, File d t) # es) =
     (case trunc_entries k es of (k', es') \<Rightarrow> (k', (n, File d t) # es'))"
| "trunc_entries (Suc k) ((n, Dir ds) # es) =
     (case trunc_entries k ds of (k1, ds') \<Rightarrow>
        (case trunc_entries k1 es of (k2, es') \<Rightarrow> (k2, (n, Dir ds') # es')))"
  by pat_completeness auto
termination
  by (relation "measure (\<lambda>(k, es). size_list (size_prod (\<lambda>_. 0) size) es)") auto

fun copied_part :: "nat \<Rightarrow> node \<Rightarrow> node option" where
  "copied_part k (File d t) = None"
| "copied_part k (Dir es) = Some (Dir (snd (trunc_entries k es)))"

section \<open>The process state and the primitives of node:fs\<close>

text \<open>
  A write to the file system can fail for a reason outside the tree (a full disk, a lock,
  a permission). Such failures are planned in the state: a fault names the operation, with
  the arguments it is called with, and is used up by the first such call. A fault of a
  recursive operation says how far the operation gets before it throws.
\<close>

datatype fs_op =
    OpMkdir string | OpCp string string | OpRm string | OpUnlink string | OpRmdir string
  | OpWriteConfig

datatype fault = Fault (progress: nat) (err: io_error)

text \<open>
  The state: the file system, the variable \<open>storageConfig\<close> of storage-state.ts, the
  record last written to \<open>storage-config.json\<close>, and the planned faults.
\<close>

record world =
  fs :: node
  storageConfig :: StorageConfig
  configFile :: "StorageConfig option"
  faults :: "(fs_op \<times> fault) list"

fun take_fault :: "fs_op \<Rightarrow> (fs_op \<times> fault) list \<Rightarrow> fault option \<times> (fs_op \<times> fault) list" where
  "take_fault opn [] = (None, [])"
| "take_fault opn ((o', f) # r) =
     (if o' = opn then (Some f, r)
      else (case take_fault opn r of (x, r') \<Rightarrow> (x, (o', f) # r')))"

text \<open>An operation either throws or returns, and leaves a state.\<close>

type_synonym 'a io = "world \<Rightarrow> (io_error + 'a) \<times> world"

definition ret :: "'a \<Rightarrow> 'a io" where
  "ret x w = (Inr x, w)"

definition throw :: "io_error \<Rightarrow> 'a io" where
  "throw e w = (Inl e, w)"

definition andThen :: "'a io \<Rightarrow> ('a \<Rightarrow> 'b io) \<Rightarrow> 'b io" where
  "andThen m f w = (case m w of (Inl e, w') \<Rightarrow> (Inl e, w') | (Inr x, w') \<Rightarrow> f x w')"

text \<open>\<open>m.catch(() => {})\<close>: the error of \<open>m\<close> is dropped.\<close>

definition swallow :: "'a io \<Rightarrow> unit io" where
  "swallow m w = (Inr (), snd (m w))"

text \<open>The segments of a path as the file system sees it, from the root.\<close>

definition segs :: "env \<Rightarrow> string \<Rightarrow> string list" where
  "segs E p = normalizeString False (if isAbsolute p then p else cwd E @ ''/'' @ p)"

definition existsSync :: "env \<Rightarrow> world \<Rightarrow> string \<Rightarrow> bool" where
  "existsSync E w p = (p \<noteq> [] \<and> lookup (fs w) (segs E p) \<noteq> None)"

text \<open>\<open>fs.mkdirSync(p, { recursive: true })\<close>.\<close>

definition mkdirSync :: "env \<Rightarrow> string \<Rightarrow> unit io" where
  "mkdirSync E p w =
     (case take_fault (OpMkdir p) (faults w) of
        (Some (Fault k e), rest) \<Rightarrow>
          (case mkdirp (take k (segs E p)) (fs w) of
             Inl e' \<Rightarrow> (Inl e', w\<lparr>faults := rest\<rparr>)
           | Inr t \<Rightarrow> (Inl e, w\<lparr>fs := t, faults := rest\<rparr>))
      | (None, rest) \<Rightarrow>
          (case mkdirp (segs E p) (fs w) of
             Inl e' \<Rightarrow> (Inl e', w)
           | Inr t \<Rightarrow> (Inr (), w\<lparr>fs := t\<rparr>)))"

text \<open>\<open>readdir(p)\<close> gives the names, \<open>readdir(p, { withFileTypes: true })\<close> the names with
  \<open>isDirectory()\<close>. Reading changes nothing.\<close>

definition readdirTypes :: "env \<Rightarrow> string \<Rightarrow> (string \<times> bool) list io" where
  "readdirTypes E p w =
     (case lookup (fs w) (segs E p) of
        None \<Rightarrow> (Inl ENOENT, w)
      | Some (File d t) \<Rightarrow> (Inl ENOTDIR, w)
      | Some (Dir es) \<Rightarrow> (Inr (map (\<lambda>(n, c). (n, is_dir c)) es), w))"

definition readdir :: "env \<Rightarrow> string \<Rightarrow> string list io" where
  "readdir E p = andThen (readdirTypes E p) (\<lambda>ds. ret (map fst ds))"

text \<open>\<open>stat(p)\<close>: \<open>size\<close> and \<open>mtimeMs\<close>.\<close>

definition stat :: "env \<Rightarrow> string \<Rightarrow> (nat \<times> int) io" where
  "stat E p w =
     (case lookup (fs w) (segs E p) of
        None \<Rightarrow> (Inl ENOENT, w)
      | Some (File d t) \<Rightarrow> (Inr (length d, t), w)
      | Some (Dir es) \<Rightarrow> (Inr (0, 0), w))"

text \<open>
  \<open>fs.promises.cp(src, dest, { recursive: true, force: true })\<close>, from the node \<open>sn\<close> read
  at \<open>src\<close>: the same path and a destination inside the source directory are refused, the
  missing parents of the destination are created, then the source is merged onto it.
\<close>

definition cp_tree ::
  "int \<Rightarrow> node \<Rightarrow> string list \<Rightarrow> string list \<Rightarrow> node \<Rightarrow> io_error option \<times> node" where
  "cp_tree t sn s d root =
     (if s = d then (Some ERR_FS_CP_EINVAL, root)
      else if is_dir sn \<and> prefix s d then (Some ERR_FS_CP_EINVAL, root)
      else (case mkdirp (butlast d) root of
              Inl e \<Rightarrow> (Some e, root)
            | Inr r1 \<Rightarrow>
                (case merge_node t sn (lookup r1 d) of
                   (e, new) \<Rightarrow> (e, alter (\<lambda>_. new) d r1))))"

definition cp :: "env \<Rightarrow> string \<Rightarrow> string \<Rightarrow> unit io" where
  "cp E src dest w =
     (case take_fault (OpCp src dest) (faults w) of
        (None, rest) \<Rightarrow>
          (case lookup (fs w) (segs E src) of
             None \<Rightarrow> (Inl ENOENT, w)
           | Some sn \<Rightarrow>
               (case cp_tree (now E) sn (segs E src) (segs E dest) (fs w) of
                  (None, r) \<Rightarrow> (Inr (), w\<lparr>fs := r\<rparr>)
                | (Some e, r) \<Rightarrow> (Inl e, w\<lparr>fs := r\<rparr>)))
      | (Some (Fault k e), rest) \<Rightarrow>
          (case lookup (fs w) (segs E src) of
             None \<Rightarrow> (Inl ENOENT, w\<lparr>faults := rest\<rparr>)
           | Some sn \<Rightarrow>
               (case copied_part k sn of
                  None \<Rightarrow> (Inl e, w\<lparr>faults := rest\<rparr>)
                | Some part \<Rightarrow>
                    (case cp_tree (now E) part (segs E src) (segs E dest) (fs w) of
                       (None, r) \<Rightarrow> (Inl e, w\<lparr>fs := r, faults := rest\<rparr>)
                     | (Some e', r) \<Rightarrow> (Inl e', w\<lparr>fs := r, faults := rest\<rparr>)))))"

text \<open>
  \<open>fs.promises.rm(p, { recursive: true, force: true })\<close>: a missing path is no error. A
  failing removal has removed the first entries of the directory.
\<close>

fun rm_partial :: "nat \<Rightarrow> node \<Rightarrow> node" where
  "rm_partial k (Dir es) = Dir (drop k es)"
| "rm_partial k (File d t) = File d t"

definition rm :: "env \<Rightarrow> string \<Rightarrow> unit io" where
  "rm E p w =
     (case take_fault (OpRm p) (faults w) of
        (None, rest) \<Rightarrow> (Inr (), w\<lparr>fs := alter (\<lambda>_. None) (segs E p) (fs w)\<rparr>)
      | (Some (Fault k e), rest) \<Rightarrow>
          (Inl e, w\<lparr>fs := alter (map_option (rm_partial k)) (segs E p) (fs w), faults := rest\<rparr>))"

text \<open>\<open>unlink(p)\<close> removes a file, \<open>rmdir(p)\<close> an empty directory.\<close>

definition unlink :: "env \<Rightarrow> string \<Rightarrow> unit io" where
  "unlink E p w =
     (case take_fault (OpUnlink p) (faults w) of
        (Some (Fault k e), rest) \<Rightarrow> (Inl e, w\<lparr>faults := rest\<rparr>)
      | (None, rest) \<Rightarrow>
          (case lookup (fs w) (segs E p) of
             None \<Rightarrow> (Inl ENOENT, w)
           | Some (Dir es) \<Rightarrow> (Inl EISDIR, w)
           | Some (File d t) \<Rightarrow> (Inr (), w\<lparr>fs := alter (\<lambda>_. None) (segs E p) (fs w)\<rparr>)))"

definition rmdir :: "env \<Rightarrow> string \<Rightarrow> unit io" where
  "rmdir E p w =
     (case take_fault (OpRmdir p) (faults w) of
        (Some (Fault k e), rest) \<Rightarrow> (Inl e, w\<lparr>faults := rest\<rparr>)
      | (None, rest) \<Rightarrow>
          (case lookup (fs w) (segs E p) of
             None \<Rightarrow> (Inl ENOENT, w)
           | Some (File d t) \<Rightarrow> (Inl ENOTDIR, w)
           | Some (Dir es) \<Rightarrow>
               (if es = [] then (Inr (), w\<lparr>fs := alter (\<lambda>_. None) (segs E p) (fs w)\<rparr>)
                else (Inl ENOTEMPTY, w))))"

section \<open>storage-state.ts: the accessors\<close>

text \<open>\<open>{ ...storageConfig, ...partial }\<close>: a field of \<open>partial\<close> that is present wins.\<close>

definition spread :: "StorageConfig \<Rightarrow> StorageConfig \<Rightarrow> StorageConfig" where
  "spread c partial =
     \<lparr>basePath = (case basePath partial of None \<Rightarrow> basePath c | Some v \<Rightarrow> Some v),
      projectPath = (case projectPath partial of None \<Rightarrow> projectPath c | Some v \<Rightarrow> Some v),
      mediaPath = (case mediaPath partial of None \<Rightarrow> mediaPath c | Some v \<Rightarrow> Some v),
      autoCleanEnabled =
        (case autoCleanEnabled partial of None \<Rightarrow> autoCleanEnabled c | Some v \<Rightarrow> Some v),
      autoCleanDays = (case autoCleanDays partial of None \<Rightarrow> autoCleanDays c | Some v \<Rightarrow> Some v)\<rparr>"

definition mergeStorageConfig :: "StorageConfig \<Rightarrow> world \<Rightarrow> world" where
  "mergeStorageConfig partial w = w\<lparr>storageConfig := spread (storageConfig w) partial\<rparr>"

text \<open>\<open>saveStorageConfig\<close>: a failure of \<open>writeFileSync\<close> is caught and logged.\<close>

definition saveStorageConfig :: "world \<Rightarrow> world" where
  "saveStorageConfig w =
     (case take_fault OpWriteConfig (faults w) of
        (Some f, rest) \<Rightarrow> w\<lparr>faults := rest\<rparr>
      | (None, rest) \<Rightarrow> w\<lparr>configFile := Some (storageConfig w)\<rparr>)"

section \<open>path-utils.ts: the directories\<close>

definition ensureDir :: "env \<Rightarrow> string \<Rightarrow> unit io" where
  "ensureDir E dirPath w =
     (if \<not> existsSync E w dirPath then mkdirSync E dirPath w else (Inr (), w))"

definition getProjectDataRoot :: "env \<Rightarrow> string io" where
  "getProjectDataRoot E w =
     (let base = join (getStorageBasePath E (storageConfig w)) ''projects''
      in andThen (ensureDir E base) (\<lambda>_. ret base) w)"

definition getMediaRoot :: "env \<Rightarrow> string io" where
  "getMediaRoot E w =
     (let base = join (getStorageBasePath E (storageConfig w)) ''media''
      in andThen (ensureDir E base) (\<lambda>_. ret base) w)"

definition getCacheDirs :: "env \<Rightarrow> string list" where
  "getCacheDirs E =
     [join (userData E) ''Cache'', join (userData E) ''Code Cache'', join (userData E) ''GPUCache'']"

section \<open>file-ops.ts\<close>

definition copyDir :: "env \<Rightarrow> string \<Rightarrow> string \<Rightarrow> unit io" where
  "copyDir E source destination =
     andThen (ensureDir E destination) (\<lambda>_. cp E source destination)"

definition removeDir :: "env \<Rightarrow> string \<Rightarrow> unit io" where
  "removeDir E dirPath = rm E dirPath"

section \<open>storage-manager-handlers.ts\<close>

text \<open>
  The texts that the handlers return as \<open>error\<close>: \<open>PathEmpty\<close> (the path must not be empty),
  \<open>DirNotFound\<close> (the directory does not exist), \<open>NoValidData\<close> and \<open>SourceNoValidData\<close>
  (the directory, or the source directory, has no \<open>projects/\<close> or \<open>media/\<close> with data),
  the two texts of \<open>pathsConflict\<close>, and \<open>String(error)\<close> of a caught error.
\<close>

datatype message =
    PathEmpty | DirNotFound | NoValidData | SourceNoValidData
  | Conflict conflict | ErrorText io_error

text \<open>\<open>{ valid: false, error }\<close> or \<open>{ valid: true, projectCount, mediaCount }\<close>.\<close>

datatype validation = Invalid message | Valid nat nat

text \<open>\<open>{ success: true, path? }\<close> or \<open>{ success: false, error }\<close>.\<close>

datatype outcome = Success "string option" | Failure message

definition exists_io :: "env \<Rightarrow> string \<Rightarrow> bool io" where
  "exists_io E p w = (Inr (existsSync E w p), w)"

text \<open>\<open>try { m } catch (e) { h e }\<close>.\<close>

definition tryCatch :: "'a io \<Rightarrow> (io_error \<Rightarrow> 'a io) \<Rightarrow> 'a io" where
  "tryCatch m h w = (case m w of (Inl e, w') \<Rightarrow> h e w' | (Inr x, w') \<Rightarrow> (Inr x, w'))"

subsection \<open>validateDataDirInternal\<close>

definition count_projects :: "env \<Rightarrow> string \<Rightarrow> nat io" where
  "count_projects E projectsDir =
     andThen (exists_io E projectsDir) (\<lambda>found.
       if found then
         andThen (readdir E projectsDir) (\<lambda>files.
           let projectCount = length (filter (\<lambda>f. endsWith f ''.json'') files);
               perProjectDir = join projectsDir ''_p''
           in andThen (exists_io E perProjectDir) (\<lambda>nested.
                if nested then
                  andThen (readdirTypes E perProjectDir) (\<lambda>projectDirs.
                    let dirCount =
                      length (filter (\<lambda>d. snd d \<and> \<not> startsWith (fst d) ''.'') projectDirs)
                    in ret (if dirCount > 0 then max projectCount dirCount else projectCount))
                else ret projectCount))
       else ret 0)"

definition count_media :: "env \<Rightarrow> string \<Rightarrow> nat io" where
  "count_media E mediaDir =
     andThen (exists_io E mediaDir) (\<lambda>found.
       if found then andThen (readdir E mediaDir) (\<lambda>entries. ret (length entries))
       else ret 0)"

definition validate_body :: "env \<Rightarrow> string \<Rightarrow> validation io" where
  "validate_body E dirPath =
     (if dirPath = [] then ret (Invalid PathEmpty)
      else
        let target = normalizePath E dirPath in
        andThen (exists_io E target) (\<lambda>found.
          if \<not> found then ret (Invalid DirNotFound)
          else
            let projectsDir = join target ''projects'';
                mediaDir = join target ''media''
            in andThen (count_projects E projectsDir) (\<lambda>projectCount.
               andThen (count_media E mediaDir) (\<lambda>mediaCount.
                 if projectCount = 0 \<and> mediaCount = 0 then ret (Invalid NoValidData)
                 else ret (Valid projectCount mediaCount)))))"

definition validateDataDirInternal :: "env \<Rightarrow> string \<Rightarrow> world \<Rightarrow> validation \<times> world" where
  "validateDataDirInternal E dirPath w =
     (case validate_body E dirPath w of
        (Inl e, w') \<Rightarrow> (Invalid (ErrorText e), w')
      | (Inr v, w') \<Rightarrow> (v, w'))"

subsection \<open>storage-move-data\<close>

text \<open>The loop \<open>for (const file of files)\<close>.\<close>

fun copy_each :: "env \<Rightarrow> string \<Rightarrow> string \<Rightarrow> string list \<Rightarrow> unit io" where
  "copy_each E currentDir targetDir [] = ret ()"
| "copy_each E currentDir targetDir (file # files) =
     andThen (cp E (join currentDir file) (join targetDir file))
       (\<lambda>_. copy_each E currentDir targetDir files)"

definition copy_entries :: "env \<Rightarrow> string \<Rightarrow> string \<Rightarrow> unit io" where
  "copy_entries E currentDir targetDir =
     andThen (exists_io E currentDir) (\<lambda>found.
       if found then andThen (readdir E currentDir) (copy_each E currentDir targetDir)
       else ret ())"

text \<open>The handler from \<open>ensureDir(targetProjectsDir)\<close> to the end of the second loop.\<close>

definition move_copy_phase :: "env \<Rightarrow> string \<Rightarrow> (string \<times> string) io" where
  "move_copy_phase E target =
     (let targetProjectsDir = join target ''projects'';
          targetMediaDir = join target ''media''
      in andThen (ensureDir E targetProjectsDir) (\<lambda>_.
         andThen (ensureDir E targetMediaDir) (\<lambda>_.
         andThen (getProjectDataRoot E) (\<lambda>currentProjectsDir.
         andThen (copy_entries E currentProjectsDir targetProjectsDir) (\<lambda>_.
         andThen (getMediaRoot E) (\<lambda>currentMediaDir.
         andThen (copy_entries E currentMediaDir targetMediaDir) (\<lambda>_.
         ret (currentProjectsDir, currentMediaDir))))))))"

text \<open>The rest of the handler: the configuration, then the removal of the old roots.\<close>

definition move_commit_phase :: "env \<Rightarrow> string \<Rightarrow> string \<times> string \<Rightarrow> string io" where
  "move_commit_phase E target dirs w =
     (case dirs of (currentProjectsDir, currentMediaDir) \<Rightarrow>
        andThen
          (if \<not> startsWith currentProjectsDir (userData E)
           then swallow (removeDir E currentProjectsDir) else ret ())
          (\<lambda>_. andThen
             (if \<not> startsWith currentMediaDir (userData E)
              then swallow (removeDir E currentMediaDir) else ret ())
             (\<lambda>_. ret target))
          (saveStorageConfig
             (mergeStorageConfig
                \<lparr>basePath = Some target, projectPath = Some [], mediaPath = Some [],
                 autoCleanEnabled = None, autoCleanDays = None\<rparr> w)))"

definition storage_move_data :: "env \<Rightarrow> string \<Rightarrow> world \<Rightarrow> outcome \<times> world" where
  "storage_move_data E newPath w =
     (if newPath = [] then (Failure PathEmpty, w)
      else
        let target = normalizePath E newPath;
            currentBase = getStorageBasePath E (storageConfig w)
        in if currentBase = target then (Success (Some currentBase), w)
           else
             (case pathsConflict E currentBase target of
                Some conflictError \<Rightarrow> (Failure (Conflict conflictError), w)
              | None \<Rightarrow>
                  (case andThen (move_copy_phase E target) (move_commit_phase E target) w of
                     (Inl e, w') \<Rightarrow> (Failure (ErrorText e), w')
                   | (Inr p, w') \<Rightarrow> (Success (Some p), w'))))"

subsection \<open>storage-import-data\<close>

text \<open>\<open>Date.now()\<close> in the name of the backup directory, in decimal.\<close>

definition digit_char :: "int \<Rightarrow> char" where
  "digit_char i = ''0123456789'' ! nat (i mod 10)"

function dec_digits :: "int \<Rightarrow> string" where
  "dec_digits i = (if i < 10 then [digit_char i] else dec_digits (i div 10) @ [digit_char i])"
  by pat_completeness auto
termination
  by (relation "measure nat") auto

definition dec_int :: "int \<Rightarrow> string" where
  "dec_int i = (if i < 0 then CHR ''-'' # dec_digits (- i) else dec_digits i)"

text \<open>The backup of one live root, when the source has that kind of data.\<close>

definition backup_root :: "env \<Rightarrow> bool \<Rightarrow> string \<Rightarrow> string \<Rightarrow> unit io" where
  "backup_root E has currentDir backupSub =
     andThen (exists_io E currentDir) (\<lambda>found.
       if has \<and> found then
         andThen (readdir E currentDir) (\<lambda>files.
           if length files > 0 then copyDir E currentDir backupSub else ret ())
       else ret ())"

text \<open>The replacement of one live root by the source's.\<close>

definition replace_root :: "env \<Rightarrow> bool \<Rightarrow> string \<Rightarrow> string \<Rightarrow> unit io" where
  "replace_root E has currentDir sourceDir =
     (if has then
        andThen (swallow (removeDir E currentDir)) (\<lambda>_. copyDir E sourceDir currentDir)
      else ret ())"

definition clear_migration_flag :: "env \<Rightarrow> string \<Rightarrow> unit io" where
  "clear_migration_flag E currentProjectsDir =
     (let migrationFlagPath = path_join [currentProjectsDir, ''_p'', ''_migrated.json'']
      in andThen (exists_io E migrationFlagPath) (\<lambda>found.
           if found then unlink E migrationFlagPath else ret ()))"

text \<open>The body of the inner \<open>try\<close>.\<close>

definition import_steps ::
  "env \<Rightarrow> bool \<Rightarrow> bool \<Rightarrow> string \<Rightarrow> string \<Rightarrow> string \<Rightarrow> string \<Rightarrow> string \<Rightarrow> unit io" where
  "import_steps E hasProjects hasMedia sourceProjectsDir sourceMediaDir
       currentProjectsDir currentMediaDir backupDir =
     andThen (backup_root E hasProjects currentProjectsDir (join backupDir ''projects'')) (\<lambda>_.
     andThen (backup_root E hasMedia currentMediaDir (join backupDir ''media'')) (\<lambda>_.
     andThen (replace_root E hasProjects currentProjectsDir sourceProjectsDir) (\<lambda>_.
     andThen (replace_root E hasMedia currentMediaDir sourceMediaDir) (\<lambda>_.
     andThen (clear_migration_flag E currentProjectsDir) (\<lambda>_.
     swallow (removeDir E backupDir))))))"

text \<open>The body of the inner \<open>catch\<close>, before the error is thrown again.\<close>

definition restore_root :: "env \<Rightarrow> string \<Rightarrow> string \<Rightarrow> unit io" where
  "restore_root E currentDir backupSub =
     andThen (exists_io E backupSub) (\<lambda>found.
       if found then
         andThen (swallow (removeDir E currentDir)) (\<lambda>_.
           swallow (copyDir E backupSub currentDir))
       else ret ())"

definition import_rollback :: "env \<Rightarrow> string \<Rightarrow> string \<Rightarrow> string \<Rightarrow> unit io" where
  "import_rollback E currentProjectsDir currentMediaDir backupDir =
     (let backupProjectsDir = join backupDir ''projects'';
          backupMediaDir = join backupDir ''media''
      in andThen (restore_root E currentProjectsDir backupProjectsDir) (\<lambda>_.
         andThen (restore_root E currentMediaDir backupMediaDir) (\<lambda>_.
         swallow (removeDir E backupDir))))"

definition backupDir_of :: "env \<Rightarrow> string" where
  "backupDir_of E = join (tmpdir E) (''moyin-backup-'' @ dec_int (now E))"

definition storage_import_data :: "env \<Rightarrow> string \<Rightarrow> world \<Rightarrow> outcome \<times> world" where
  "storage_import_data E sourcePath w =
     (if sourcePath = [] then (Failure PathEmpty, w)
      else
        let source = normalizePath E sourcePath;
            sourceProjectsDir = join source ''projects'';
            sourceMediaDir = join source ''media'';
            hasProjects = existsSync E w sourceProjectsDir;
            hasMedia = existsSync E w sourceMediaDir
        in if \<not> hasProjects \<and> \<not> hasMedia then (Failure SourceNoValidData, w)
           else
             let backupDir = backupDir_of E in
             (case
                andThen (getProjectDataRoot E) (\<lambda>currentProjectsDir.
                andThen (getMediaRoot E) (\<lambda>currentMediaDir.
                  tryCatch
                    (import_steps E hasProjects hasMedia sourceProjectsDir sourceMediaDir
                       currentProjectsDir currentMediaDir backupDir)
                    (\<lambda>importError.
                       andThen (import_rollback E currentProjectsDir currentMediaDir backupDir)
                         (\<lambda>_. throw importError)))) w
              of (Inl e, w') \<Rightarrow> (Failure (ErrorText e), w')
               | (Inr u, w') \<Rightarrow> (Success None, w')))"

section \<open>file-ops.ts: the cache\<close>

text \<open>
  \<open>getDirectorySize\<close> and \<open>deleteOldFiles\<close> call themselves on every subdirectory that
  \<open>readdir\<close> reports. The first argument bounds the depth of these calls; \<open>None\<close> says that
  the bound was reached. A \<open>catch\<close> of the source is the branch at \<open>Inl\<close>.
\<close>

fun getDirectorySize :: "nat \<Rightarrow> env \<Rightarrow> world \<Rightarrow> string \<Rightarrow> nat option"
  and size_entries ::
    "nat \<Rightarrow> env \<Rightarrow> world \<Rightarrow> string \<Rightarrow> (string \<times> bool) list \<Rightarrow> nat \<Rightarrow> nat option"
where
  "getDirectorySize 0 E w dirPath = None"
| "getDirectorySize (Suc n) E w dirPath =
     (case readdirTypes E dirPath w of
        (Inl e, w') \<Rightarrow> Some 0
      | (Inr entries, w') \<Rightarrow> size_entries n E w dirPath entries 0)"
| "size_entries n E w dirPath [] acc = Some acc"
| "size_entries n E w dirPath (entry # entries) acc =
     (let fullPath = join dirPath (fst entry) in
      if snd entry then
        (case getDirectorySize n E w fullPath of
           None \<Rightarrow> None
         | Some sz \<Rightarrow> size_entries n E w dirPath entries (acc + sz))
      else
        (case stat E fullPath w of
           (Inl e, w') \<Rightarrow> Some 0
         | (Inr st, w') \<Rightarrow> size_entries n E w dirPath entries (acc + fst st)))"

fun deleteOldFiles :: "nat \<Rightarrow> env \<Rightarrow> string \<Rightarrow> int \<Rightarrow> world \<Rightarrow> (nat \<times> world) option"
  and delete_entries ::
    "nat \<Rightarrow> env \<Rightarrow> string \<Rightarrow> int \<Rightarrow> (string \<times> bool) list \<Rightarrow> nat \<Rightarrow> world
       \<Rightarrow> (nat \<times> world) option"
where
  "deleteOldFiles 0 E dirPath cutoffTime w = None"
| "deleteOldFiles (Suc n) E dirPath cutoffTime w =
     (case readdirTypes E dirPath w of
        (Inl e, w') \<Rightarrow> Some (0, w')
      | (Inr entries, w') \<Rightarrow> delete_entries n E dirPath cutoffTime entries 0 w')"
| "delete_entries n E dirPath cutoffTime [] cleared w = Some (cleared, w)"
| "delete_entries n E dirPath cutoffTime (entry # entries) cleared w =
     (let fullPath = join dirPath (fst entry) in
      if snd entry then
        (case deleteOldFiles n E fullPath cutoffTime w of
           None \<Rightarrow> None
         | Some (c, w1) \<Rightarrow>
             (case readdir E fullPath w1 of
                (Inl e, w2) \<Rightarrow> Some (cleared + c, w2)
              | (Inr remaining, w2) \<Rightarrow>
                  delete_entries n E dirPath cutoffTime entries (cleared + c)
                    (if length remaining = 0 then snd (swallow (rmdir E fullPath) w2) else w2)))
      else
        (case stat E fullPath w of
           (Inl e, w1) \<Rightarrow> Some (cleared, w1)
         | (Inr st, w1) \<Rightarrow>
             (if snd st < cutoffTime then
                delete_entries n E dirPath cutoffTime entries (cleared + fst st)
                  (snd (swallow (unlink E fullPath) w1))
              else delete_entries n E dirPath cutoffTime entries cleared w1)))"

text \<open>The two loops of \<open>clearCache\<close> over the cache directories.\<close>

fun clear_by_age ::
  "nat \<Rightarrow> env \<Rightarrow> int \<Rightarrow> string list \<Rightarrow> nat \<Rightarrow> world \<Rightarrow> ((io_error + nat) \<times> world) option" where
  "clear_by_age n E cutoff [] cleared w = Some (Inr cleared, w)"
| "clear_by_age n E cutoff (dir # dirs) cleared w =
     (case deleteOldFiles n E dir cutoff w of
        None \<Rightarrow> None
      | Some (c, w') \<Rightarrow> clear_by_age n E cutoff dirs (cleared + c) w')"

fun clear_all ::
  "nat \<Rightarrow> env \<Rightarrow> string list \<Rightarrow> nat \<Rightarrow> world \<Rightarrow> ((io_error + nat) \<times> world) option" where
  "clear_all n E [] cleared w = Some (Inr cleared, w)"
| "clear_all n E (dir # dirs) cleared w =
     (case getDirectorySize n E w dir of
        None \<Rightarrow> None
      | Some sz \<Rightarrow>
          (case andThen (swallow (removeDir E dir)) (\<lambda>_. ensureDir E dir) w of
             (Inl e, w') \<Rightarrow> Some (Inl e, w')
           | (Inr u, w') \<Rightarrow> clear_all n E dirs (cleared + sz) w'))"

text \<open>\<open>olderThanDays\<close> is a number or \<open>undefined\<close>; the test is \<open>olderThanDays && olderThanDays > 0\<close>.\<close>

definition clearCache ::
  "nat \<Rightarrow> env \<Rightarrow> int option \<Rightarrow> world \<Rightarrow> ((io_error + nat) \<times> world) option" where
  "clearCache n E olderThanDays w =
     (let dirs = getCacheDirs E in
      case olderThanDays of
        Some d \<Rightarrow>
          (if d \<noteq> 0 \<and> d > 0 then
             (let cutoff = now E - d * 24 * 60 * 60 * 1000
              in clear_by_age n E cutoff dirs 0 w)
           else clear_all n E dirs 0 w)
      | None \<Rightarrow> clear_all n E dirs 0 w)"

section \<open>The specification's wording, and example states\<close>

definition ex_env :: env where
  "ex_env = \<lparr>cwd = ''/home/u'', userData = ''/ud'', tmpdir = ''/tmp'', now = 864000000\<rparr>"

definition ex_config :: StorageConfig where
  "ex_config =
     \<lparr>basePath = Some ''/d'', projectPath = None, mediaPath = None,
      autoCleanEnabled = None, autoCleanDays = None\<rparr>"

text \<open>An operation that leaves the configuration, in memory and on disk, as it is.\<close>

definition keeps_config :: "'a io \<Rightarrow> bool" where
  "keeps_config m =
     (\<forall>w. storageConfig (snd (m w)) = storageConfig w \<and> configFile (snd (m w)) = configFile w)"

text \<open>An operation that leaves the whole state as it is.\<close>

definition read_only :: "'a io \<Rightarrow> bool" where
  "read_only m = (\<forall>w. snd (m w) = w)"

definition ex_move_world :: world where
  "ex_move_world =
     \<lparr>fs = Dir [(''d'', Dir [(''projects'', Dir [(''a.json'', File ''A'' 1), (''b.json'', File ''B'' 2)]),
                             (''media'', Dir [])])],
      storageConfig = ex_config, configFile = None,
      faults = [(OpCp ''/d/projects/b.json'' ''/new/projects/b.json'', Fault 0 (Injected 28))]\<rparr>"

definition ex_cache_world :: world where
  "ex_cache_world =
     \<lparr>fs = Dir [(''ud'',
              Dir [(''Cache'',
                    Dir [(''old'', File ''xxxx'' 5),
                         (''sub'', Dir [(''o2'', File ''yy'' 7), (''e'', Dir [])]),
                         (''new'', File ''zzz'' 864000000)]),
                   (''GPUCache'', Dir [(''g'', File ''g'' 0)])])],
      storageConfig = ex_config, configFile = None, faults = []\<rparr>"

text \<open>A name as \<open>readdir\<close> gives it: not empty, not \<open>.\<close> or \<open>..\<close>, without a slash.\<close>

definition plain :: "string \<Rightarrow> bool" where
  "plain s = (s \<noteq> [] \<and> s \<noteq> ''.'' \<and> s \<noteq> ''..'' \<and> CHR ''/'' \<notin> set s)"

text \<open>A segment of a normalized relative path, which may be \<open>..\<close>.\<close>

definition okseg :: "string \<Rightarrow> bool" where
  "okseg s = (s \<noteq> [] \<and> s \<noteq> ''.'' \<and> CHR ''/'' \<notin> set s)"

text \<open>The segments of the working directory.\<close>

definition cwd_segs :: "env \<Rightarrow> string list" where
  "cwd_segs E = normalizeString False (cwd E)"

definition ex_case_world :: world where
  "ex_case_world =
     \<lparr>fs = Dir [(''d'', Dir [(''projects'', Dir [(''a.json'', File ''A'' 1)]), (''media'', Dir [])])],
      storageConfig = ex_config, configFile = None, faults = []\<rparr>"

definition ex_root_world :: world where
  "ex_root_world =
     \<lparr>fs = Dir [(''projects'', Dir [(''p.json'', File ''P'' 1)]), (''media'', Dir [])],
      storageConfig =
        \<lparr>basePath = Some ''/'', projectPath = None, mediaPath = None,
         autoCleanEnabled = None, autoCleanDays = None\<rparr>,
      configFile = None, faults = []\<rparr>"

text \<open>Two paths of which neither leads through the other.\<close>

definition apart :: "string list \<Rightarrow> string list \<Rightarrow> bool" where
  "apart p q = (\<not> prefix p q \<and> \<not> prefix q p)"

text \<open>A tree as a copy made at time \<open>t\<close> writes it: every file with the time \<open>t\<close>.\<close>

fun stamp_node :: "int \<Rightarrow> node \<Rightarrow> node" where
  "stamp_node t (File d m) = File d t"
| "stamp_node t (Dir es) = Dir (map (\<lambda>e. (fst e, stamp_node t (snd e))) es)"


definition is_dir_at :: "node \<Rightarrow> string list \<Rightarrow> bool" where
  "is_dir_at t q = (case lookup t q of Some (Dir es) \<Rightarrow> True | _ \<Rightarrow> False)"

text \<open>An operation that leaves what is at the path \<open>q\<close> as it is.\<close>

definition keeps_at :: "string list \<Rightarrow> 'a io \<Rightarrow> bool" where
  "keeps_at q m = (\<forall>w. lookup (fs (snd (m w))) q = lookup (fs w) q)"

text \<open>
  From a state with \<open>X\<close>, the operation returns \<open>x\<close> in a state with \<open>Y x\<close>, or throws \<open>e\<close>
  in a state with \<open>Z e\<close>.
\<close>

definition hoare ::
  "(world \<Rightarrow> bool) \<Rightarrow> 'a io \<Rightarrow> ('a \<Rightarrow> world \<Rightarrow> bool) \<Rightarrow> (io_error \<Rightarrow> world \<Rightarrow> bool) \<Rightarrow> bool" where
  "hoare X m Y Z =
     (\<forall>w. X w \<longrightarrow> (case m w of (Inl e, w') \<Rightarrow> Z e w' | (Inr x, w') \<Rightarrow> Y x w'))"

text \<open>The paths of the live roots, as \<open>getProjectDataRoot\<close> and \<open>getMediaRoot\<close> compute them.\<close>

definition projectRoot :: "env \<Rightarrow> world \<Rightarrow> string" where
  "projectRoot E w = join (getStorageBasePath E (storageConfig w)) ''projects''"

definition mediaRoot :: "env \<Rightarrow> world \<Rightarrow> string" where
  "mediaRoot E w = join (getStorageBasePath E (storageConfig w)) ''media''"

definition ex_flag_world :: world where
  "ex_flag_world =
     \<lparr>fs = Dir [(''d'',
              Dir [(''projects'',
                    Dir [(''_p'', Dir [(''_migrated.json'', File ''{}'' 1), (''p1'', Dir [])])]),
                   (''media'', Dir [(''old.png'', File ''o'' 2)])]),
             (''src'', Dir [(''media'', Dir [(''new.png'', File ''n'' 3)])]),
             (''tmp'', Dir [])],
      storageConfig = ex_config, configFile = None, faults = []\<rparr>"


text \<open>What is at a path, without the times of the files.\<close>

definition content_at :: "node \<Rightarrow> string list \<Rightarrow> node option" where
  "content_at t q = map_option (stamp_node 0) (lookup t q)"



text \<open>
  The entries of a directory as a well-formed file system has them: every name is plain
  and is listed once, in the directory and below.
\<close>

function wf_entries :: "(string \<times> node) list \<Rightarrow> bool" where
  "wf_entries [] = True"
| "wf_entries ((n, File d t) # es) = (plain n \<and> n \<notin> fst ` set es \<and> wf_entries es)"
| "wf_entries ((n, Dir ds) # es) = (plain n \<and> n \<notin> fst ` set es \<and> wf_entries ds \<and> wf_entries es)"
  by pat_completeness auto
termination
  by (relation "measure (size_list (size_prod (\<lambda>_. 0) size))") auto

text \<open>How many directories lie below each other in the entries.\<close>

function entries_depth :: "(string \<times> node) list \<Rightarrow> nat" where
  "entries_depth [] = 0"
| "entries_depth ((n, File d t) # es) = entries_depth es"
| "entries_depth ((n, Dir ds) # es) = max (Suc (entries_depth ds)) (entries_depth es)"
  by pat_completeness auto
termination
  by (relation "measure (size_list (size_prod (\<lambda>_. 0) size))") auto

text \<open>The bytes of all files of the entries, and of a directory at a path.\<close>

function entries_size :: "(string \<times> node) list \<Rightarrow> nat" where
  "entries_size [] = 0"
| "entries_size ((n, File d t) # es) = length d + entries_size es"
| "entries_size ((n, Dir ds) # es) = entries_size ds + entries_size es"
  by pat_completeness auto
termination
  by (relation "measure (size_list (size_prod (\<lambda>_. 0) size))") auto

definition dir_size :: "node \<Rightarrow> string list \<Rightarrow> nat" where
  "dir_size t q = (case lookup t q of Some (Dir es) \<Rightarrow> entries_size es | _ \<Rightarrow> 0)"

text \<open>
  Pruning by age as the specification words it: the files older than the cutoff are
  deleted, then, from the bottom up, the directories that are empty; the other files
  stay. \<open>old_size\<close> is the number of bytes of the deleted files.
\<close>

function prune_entries :: "int \<Rightarrow> (string \<times> node) list \<Rightarrow> (string \<times> node) list" where
  "prune_entries c [] = []"
| "prune_entries c ((n, File d t) # es) =
     (if t < c then prune_entries c es else (n, File d t) # prune_entries c es)"
| "prune_entries c ((n, Dir ds) # es) =
     (if prune_entries c ds = [] then prune_entries c es
      else (n, Dir (prune_entries c ds)) # prune_entries c es)"
  by pat_completeness auto
termination
  by (relation "measure (\<lambda>(c, es). size_list (size_prod (\<lambda>_. 0) size) es)") auto

function old_size :: "int \<Rightarrow> (string \<times> node) list \<Rightarrow> nat" where
  "old_size c [] = 0"
| "old_size c ((n, File d t) # es) = (if t < c then length d else 0) + old_size c es"
| "old_size c ((n, Dir ds) # es) = old_size c ds + old_size c es"
  by pat_completeness auto
termination
  by (relation "measure (\<lambda>(c, es). size_list (size_prod (\<lambda>_. 0) size) es)") auto

text \<open>What pruning by age makes of a cache directory; a file in its place stays.\<close>

fun pruned :: "int \<Rightarrow> node \<Rightarrow> node" where
  "pruned c (Dir es) = Dir (prune_entries c es)"
| "pruned c (File d t) = File d t"

text \<open>The bytes of the old files below the directory at a path.\<close>

definition old_size_at :: "int \<Rightarrow> node \<Rightarrow> string list \<Rightarrow> nat" where
  "old_size_at c t q = (case lookup t q of Some (Dir es) \<Rightarrow> old_size c es | _ \<Rightarrow> 0)"

text \<open>
  What is assumed of a directory at a path: its tree is well formed, and the calls of the
  recursion on it stay below the bound \<open>n\<close>.
\<close>

definition dir_ok :: "nat \<Rightarrow> node \<Rightarrow> string list \<Rightarrow> bool" where
  "dir_ok n t q =
     (case lookup t q of Some (Dir es) \<Rightarrow> wf_entries es \<and> entries_depth es < n | _ \<Rightarrow> True)"

text \<open>
  White space as the language defines it for \<open>trim\<close>, by character code, and a string of
  white space only.
\<close>

definition whitespace_code :: "char \<Rightarrow> bool" where
  "whitespace_code c = ((of_char c :: nat) \<in> set [9, 10, 11, 12, 13, 32, 160])"

definition blank :: "string \<Rightarrow> bool" where
  "blank s = list_all whitespace_code s"

text \<open>
  \<open>core\<close> is what is left of \<open>s\<close> when the white space at both ends is taken away:
  \<open>s\<close> is \<open>core\<close> between two blank strings, and \<open>core\<close> neither begins nor ends with white
  space.
\<close>

definition trimmed_to :: "string \<Rightarrow> string \<Rightarrow> string \<Rightarrow> string \<Rightarrow> bool" where
  "trimmed_to s l core r =
     (s = l @ core @ r \<and> blank l \<and> blank r
      \<and> (core = [] \<or> (\<not> whitespace_code (hd core) \<and> \<not> whitespace_code (last core))))"

text \<open>A path made absolute: as it is written when it begins with a slash, else resolved.\<close>

definition made_absolute :: "env \<Rightarrow> string \<Rightarrow> string" where
  "made_absolute E p = (if hd p = CHR ''/'' then p else resolve E p)"

text \<open>The example state with both live roots empty.\<close>

definition ex_empty_roots_world :: world where
  "ex_empty_roots_world =
     \<lparr>fs = Dir [(''d'', Dir [(''projects'', Dir []), (''media'', Dir [])])],
      storageConfig = ex_config, configFile = None, faults = []\<rparr>"

text \<open>A state whose base path is the working directory of \<open>ex_env\<close>.\<close>

definition ex_cwd_world :: world where
  "ex_cwd_world =
     \<lparr>fs = Dir [(''home'', Dir [(''u'',
              Dir [(''projects'', Dir [(''a.json'', File ''A'' 1)]), (''media'', Dir [])])])],
      storageConfig =
        \<lparr>basePath = Some ''/home/u'', projectPath = None, mediaPath = None,
         autoCleanEnabled = None, autoCleanDays = None\<rparr>,
      configFile = None, faults = []\<rparr>"

text \<open>The example state of the media-only import, with a fault planned on the copy of the media.\<close>

definition ex_flag_fault_world :: world where
  "ex_flag_fault_world =
     ex_flag_world\<lparr>faults := [(OpCp ''/src/media'' ''/d/media'', Fault 0 (Injected 28))]\<rparr>"

section \<open>The base path\<close>

lemma trim_Nil: "trim [] = []"
  by (simp add: trim_def)

lemma char_eq_code:
  assumes "(of_char d :: nat) = k"
  shows "(c = d) = ((of_char c :: nat) = k)"
  unfolding assms [symmetric] by simp

lemma whitespace_code_is_space: "whitespace_code c = is_space c"
proof -
  have e: "(c = CHR '' '') = ((of_char c :: nat) = 32)" "(c = CHR 0x09) = ((of_char c :: nat) = 9)"
    "(c = CHR 0x0A) = ((of_char c :: nat) = 10)" "(c = CHR 0x0B) = ((of_char c :: nat) = 11)"
    "(c = CHR 0x0C) = ((of_char c :: nat) = 12)" "(c = CHR 0x0D) = ((of_char c :: nat) = 13)"
    "(c = CHR 0xA0) = ((of_char c :: nat) = 160)"
    by (rule char_eq_code, simp)+
  have "is_space c = ((of_char c :: nat) = 32 \<or> (of_char c :: nat) = 9 \<or> (of_char c :: nat) = 10
      \<or> (of_char c :: nat) = 11 \<or> (of_char c :: nat) = 12 \<or> (of_char c :: nat) = 13
      \<or> (of_char c :: nat) = 160)"
    unfolding is_space_def by (simp only: list.set insert_iff empty_iff e simp_thms)
  moreover have "whitespace_code c = ((of_char c :: nat) = 32 \<or> (of_char c :: nat) = 9
      \<or> (of_char c :: nat) = 10
      \<or> (of_char c :: nat) = 11 \<or> (of_char c :: nat) = 12 \<or> (of_char c :: nat) = 13
      \<or> (of_char c :: nat) = 160)"
    unfolding whitespace_code_def by (simp only: list.set insert_iff empty_iff simp_thms) blast
  ultimately show ?thesis by simp
qed

lemma blank_dropWhile: "blank l \<Longrightarrow> dropWhile is_space (l @ s) = dropWhile is_space s"
  by (induction l) (simp_all add: blank_def whitespace_code_is_space)

lemma blank_all: "blank l \<Longrightarrow> dropWhile is_space l = []"
  by (induction l) (simp_all add: blank_def whitespace_code_is_space)

lemma blank_rev: "blank (rev l) = blank l"
  by (simp add: blank_def list_all_iff)

lemma trim_core:
  assumes "trimmed_to s l core r"
  shows "trim s = core"
proof (cases "core = []")
  case True
  have "blank (l @ r)" using assms by (simp add: trimmed_to_def blank_def)
  then show ?thesis using assms True by (simp add: trimmed_to_def trim_def blank_all)
next
  case False
  have s: "s = l @ core @ r" and l: "blank l" and r: "blank r"
    and h: "\<not> is_space (hd core)" and t: "\<not> is_space (last core)"
    using assms False by (simp_all add: trimmed_to_def whitespace_code_is_space)
  have a: "dropWhile is_space core = core" using False h by (cases core) simp_all
  have b: "dropWhile is_space (rev core) = rev core"
    using False t by (cases "rev core") (simp_all add: last_rev [symmetric] hd_rev)
  obtain x xs where c: "core = x # xs" using False by (cases core) auto
  have "dropWhile is_space (core @ r) = core @ r" using h c by simp
  then have "dropWhile is_space s = core @ r"
    using s l by (simp add: blank_dropWhile)
  then have "trim s = rev (dropWhile is_space (rev r @ rev core))" by (simp add: trim_def)
  also have "\<dots> = rev (dropWhile is_space (rev core))"
    using r by (simp add: blank_dropWhile blank_rev)
  finally show ?thesis using b by simp
qed

text \<open>Every string lies between its white space in one way: the middle is \<open>trim\<close> of it.\<close>

lemma trimmed_to_total:
  "trimmed_to s (takeWhile is_space s) (trim s)
     (rev (takeWhile is_space (rev (dropWhile is_space s))))"
proof -
  define d where "d = dropWhile is_space s"
  have t: "trim s = rev (dropWhile is_space (rev d))" by (simp add: trim_def d_def)
  have "rev (takeWhile is_space (rev d) @ dropWhile is_space (rev d)) = rev (rev d)"
    by (simp only: takeWhile_dropWhile_id)
  then have "rev (dropWhile is_space (rev d)) @ rev (takeWhile is_space (rev d)) = d"
    by (simp only: rev_append rev_rev_ident)
  then have dd: "d = trim s @ rev (takeWhile is_space (rev d))" using t by simp
  have s: "s = takeWhile is_space s @ trim s @ rev (takeWhile is_space (rev d))"
    using dd takeWhile_dropWhile_id [of is_space s] by (simp add: d_def)
  have bl: "blank (takeWhile is_space s)"
    by (auto simp: blank_def list_all_iff whitespace_code_is_space dest: set_takeWhileD)
  have br: "blank (rev (takeWhile is_space (rev d)))"
    by (auto simp: blank_def list_all_iff whitespace_code_is_space dest: set_takeWhileD)
  have ends: "\<not> whitespace_code (hd (trim s)) \<and> \<not> whitespace_code (last (trim s))"
    if ne: "trim s \<noteq> []"
  proof -
    have n1: "dropWhile is_space (rev d) \<noteq> []" using ne t by simp
    then have "\<not> is_space (hd (dropWhile is_space (rev d)))" by (rule hd_dropWhile)
    then have l: "\<not> is_space (last (trim s))" using t n1 by (simp add: last_rev)
    have "d \<noteq> []" using dd ne by auto
    then have "\<not> is_space (hd d)" unfolding d_def by (rule hd_dropWhile)
    moreover have "hd d = hd (trim s)" using dd ne by (metis hd_append2)
    ultimately show ?thesis using l by (simp add: whitespace_code_is_space)
  qed
  show ?thesis
    unfolding trimmed_to_def using s bl br ends by (auto simp: d_def)
qed

lemma trimmed_to_unique: "trimmed_to s l b r \<Longrightarrow> trimmed_to s l' b' r' \<Longrightarrow> b = b'"
  using trim_core by metis

lemma normalizePath_made_absolute: "p \<noteq> [] \<Longrightarrow> normalizePath E p = made_absolute E p"
  by (simp add: normalizePath_def made_absolute_def isAbsolute_def)

text \<open>
  Claim C5, as amended. Let \<open>b\<close> be the \<open>basePath\<close> of the configuration and \<open>p\<close> its
  \<open>projectPath\<close> without the white space at their ends, an absent field counting as the
  empty string. \<open>getStorageBasePath\<close> returns \<open>b\<close> made absolute when \<open>b\<close> is not empty:
  \<open>b\<close> as it is written when it begins with a slash, else \<open>b\<close> resolved from the working
  directory. Otherwise it returns \<open>path.dirname\<close> of \<open>p\<close> made absolute in the same way
  when \<open>p\<close> is not empty, and otherwise \<open>userData\<close>. Every field has exactly one such
  \<open>b\<close> or \<open>p\<close> (\<open>trimmed_to_total\<close>, \<open>trimmed_to_unique\<close>), so this says what is returned
  for every configuration; the result is a function of the configuration, the working
  directory and \<open>userData\<close> alone. With the base path unset (absent, or empty) and the
  legacy project path \<open>/data/old/projects\<close> it returns \<open>/data/old\<close>.
\<close>

theorem getStorageBasePath_tiers:
  assumes "trimmed_to (case basePath c of None \<Rightarrow> [] | Some s \<Rightarrow> s) l b r"
    and "trimmed_to (case projectPath c of None \<Rightarrow> [] | Some s \<Rightarrow> s) l' p r'"
  shows "getStorageBasePath E c =
           (if b \<noteq> [] then made_absolute E b
            else if p \<noteq> [] then dirname (made_absolute E p)
            else userData E)
   \<and> getStorageBasePath E (c\<lparr>basePath := None, projectPath := Some ''/data/old/projects''\<rparr>)
       = ''/data/old''
   \<and> getStorageBasePath E (c\<lparr>basePath := Some [], projectPath := Some ''/data/old/projects''\<rparr>)
       = ''/data/old''"
proof -
  have tb: "trim (case basePath c of None \<Rightarrow> [] | Some s \<Rightarrow> s) = b"
    using assms(1) by (rule trim_core)
  have tp: "trim (case projectPath c of None \<Rightarrow> [] | Some s \<Rightarrow> s) = p"
    using assms(2) by (rule trim_core)
  have b: "trimmed (basePath c) = (if b = [] then None else Some b)"
    using tb by (auto simp: trimmed_def trim_Nil split: option.splits)
  have p: "trimmed (projectPath c) = (if p = [] then None else Some p)"
    using tp by (auto simp: trimmed_def trim_Nil split: option.splits)
  have a: "getStorageBasePath E c =
           (if b \<noteq> [] then made_absolute E b
            else if p \<noteq> [] then dirname (made_absolute E p)
            else userData E)"
    by (simp add: getStorageBasePath_def b p normalizePath_made_absolute)
  have t: "trim ''/data/old/projects'' = ''/data/old/projects''"
    by (simp add: trim_def is_space_def)
  have d: "dirname ''/data/old/projects'' = ''/data/old''"
    by (simp add: dirname_def)
  have n: "normalizePath E ''/data/old/projects'' = ''/data/old/projects''"
    by (simp add: normalizePath_def isAbsolute_def)
  show ?thesis
    using a by (simp add: getStorageBasePath_def trimmed_def trim_Nil t d n)
qed

theorem getStorageBasePath_tiers_witness:
  "trimmed_to ''  x/../y  '' ''  '' ''x/../y'' ''  ''
   \<and> trimmed_to '''' '''' '''' ''''
   \<and> trimmed_to ''        '' ''    '' '''' ''    ''
   \<and> trimmed_to '' /a/b/../c/'' '' '' ''/a/b/../c/'' ''''
   \<and> getStorageBasePath ex_env
        \<lparr>basePath = Some ''  x/../y  '', projectPath = None, mediaPath = None,
         autoCleanEnabled = None, autoCleanDays = None\<rparr> = ''/home/u/y''
   \<and> getStorageBasePath ex_env
        \<lparr>basePath = Some ''        '', projectPath = Some '' /a/b/../c/'', mediaPath = None,
         autoCleanEnabled = None, autoCleanDays = None\<rparr> = ''/a/b/..''
   \<and> getStorageBasePath ex_env
        \<lparr>basePath = Some ''        '', projectPath = None, mediaPath = None,
         autoCleanEnabled = None, autoCleanDays = None\<rparr> = ''/ud''"
proof -
  let ?c1 = "\<lparr>basePath = Some ''  x/../y  '', projectPath = None, mediaPath = None,
         autoCleanEnabled = None, autoCleanDays = None\<rparr>"
  let ?c2 = "\<lparr>basePath = Some ''        '', projectPath = Some '' /a/b/../c/'', mediaPath = None,
         autoCleanEnabled = None, autoCleanDays = None\<rparr>"
  let ?c3 = "\<lparr>basePath = Some ''        '', projectPath = None, mediaPath = None,
         autoCleanEnabled = None, autoCleanDays = None\<rparr>"
  have h1: "trimmed_to ''  x/../y  '' ''  '' ''x/../y'' ''  ''" by code_simp
  have h2: "trimmed_to '''' '''' '''' ''''" by code_simp
  have h3: "trimmed_to ''        '' ''    '' '''' ''    ''" by code_simp
  have h4: "trimmed_to '' /a/b/../c/'' '' '' ''/a/b/../c/'' ''''" by code_simp
  have k1: "trimmed_to (case basePath ?c1 of None \<Rightarrow> [] | Some s \<Rightarrow> s) ''  '' ''x/../y'' ''  ''"
    using h1 by simp
  have k2: "trimmed_to (case projectPath ?c1 of None \<Rightarrow> [] | Some s \<Rightarrow> s) '''' '''' ''''"
    using h2 by simp
  have k3: "trimmed_to (case basePath ?c2 of None \<Rightarrow> [] | Some s \<Rightarrow> s) ''    '' '''' ''    ''"
    using h3 by simp
  have k4: "trimmed_to (case projectPath ?c2 of None \<Rightarrow> [] | Some s \<Rightarrow> s) '' '' ''/a/b/../c/'' ''''"
    using h4 by simp
  have k5: "trimmed_to (case basePath ?c3 of None \<Rightarrow> [] | Some s \<Rightarrow> s) ''    '' '''' ''    ''"
    using h3 by simp
  have k6: "trimmed_to (case projectPath ?c3 of None \<Rightarrow> [] | Some s \<Rightarrow> s) '''' '''' ''''"
    using h2 by simp
  have m1: "made_absolute ex_env ''x/../y'' = ''/home/u/y''" by code_simp
  have m2: "dirname (made_absolute ex_env ''/a/b/../c/'') = ''/a/b/..''" by code_simp
  have m3: "userData ex_env = ''/ud''" by code_simp
  have a: "getStorageBasePath ex_env ?c1 = ''/home/u/y''"
    using getStorageBasePath_tiers [OF k1 k2, of ex_env, THEN conjunct1] m1 by simp
  have b: "getStorageBasePath ex_env ?c2 = ''/a/b/..''"
    using getStorageBasePath_tiers [OF k3 k4, of ex_env, THEN conjunct1] m2 by simp
  have c: "getStorageBasePath ex_env ?c3 = ''/ud''"
    using getStorageBasePath_tiers [OF k5 k6, of ex_env, THEN conjunct1] m3 by simp
  show ?thesis
    by (rule conjI [OF h1 conjI [OF h2 conjI [OF h3 conjI [OF h4 conjI [OF a conjI [OF b c]]]]]])
qed

text \<open>
  Claim C5, as stated, fails where it says that the path is normalized. An absolute
  \<open>basePath\<close> is returned as it is written: \<open>/d/../e\<close>, whose normalized form is \<open>/e\<close>,
  and \<open>/d/\<close> with its slash at the end. For the legacy path \<open>/a/b/../c/\<close> the result is
  \<open>/a/b/..\<close>, and the parent directory of the normalized path is \<open>/a\<close>.
\<close>

theorem getStorageBasePath_not_normalized:
  "getStorageBasePath ex_env
     \<lparr>basePath = Some ''/d/../e'', projectPath = None, mediaPath = None,
      autoCleanEnabled = None, autoCleanDays = None\<rparr> = ''/d/../e''
   \<and> normalize ''/d/../e'' = ''/e'' \<and> resolve ex_env ''/d/../e'' = ''/e''
   \<and> getStorageBasePath ex_env
        \<lparr>basePath = Some ''/d/'', projectPath = None, mediaPath = None,
         autoCleanEnabled = None, autoCleanDays = None\<rparr> = ''/d/''
   \<and> resolve ex_env ''/d/'' = ''/d''
   \<and> getStorageBasePath ex_env
        \<lparr>basePath = None, projectPath = Some ''/a/b/../c/'', mediaPath = None,
         autoCleanEnabled = None, autoCleanDays = None\<rparr> = ''/a/b/..''
   \<and> dirname (normalize ''/a/b/../c/'') = ''/a''
   \<and> dirname (resolve ex_env ''/a/b/../c/'') = ''/a''"
proof -
  have a: "getStorageBasePath ex_env
     \<lparr>basePath = Some ''/d/../e'', projectPath = None, mediaPath = None,
      autoCleanEnabled = None, autoCleanDays = None\<rparr> = ''/d/../e''" by code_simp
  have b: "normalize ''/d/../e'' = ''/e''" by code_simp
  have c: "resolve ex_env ''/d/../e'' = ''/e''" by code_simp
  have d: "getStorageBasePath ex_env
        \<lparr>basePath = Some ''/d/'', projectPath = None, mediaPath = None,
         autoCleanEnabled = None, autoCleanDays = None\<rparr> = ''/d/''" by code_simp
  have e: "resolve ex_env ''/d/'' = ''/d''" by code_simp
  have f: "getStorageBasePath ex_env
        \<lparr>basePath = None, projectPath = Some ''/a/b/../c/'', mediaPath = None,
         autoCleanEnabled = None, autoCleanDays = None\<rparr> = ''/a/b/..''" by code_simp
  have g: "dirname (normalize ''/a/b/../c/'') = ''/a''" by code_simp
  have h: "dirname (resolve ex_env ''/a/b/../c/'') = ''/a''" by code_simp
  show ?thesis
    by (rule conjI [OF a conjI [OF b conjI [OF c conjI [OF d conjI [OF e conjI [OF f conjI [OF g h]]]]]]])
qed

section \<open>Moving to the current base path\<close>

lemma move_commit_phase_target: "fst (move_commit_phase E target dirs w) = Inr target"
  by (cases dirs)
     (auto simp: move_commit_phase_def andThen_def ret_def swallow_def split: prod.splits sum.splits)

lemma move_success_path:
  assumes "newPath \<noteq> []"
    and "normalizePath E newPath \<noteq> getStorageBasePath E (storageConfig w)"
    and "fst (storage_move_data E newPath w) = Success (Some p)"
  shows "p = normalizePath E newPath"
proof -
  let ?t = "normalizePath E newPath"
  let ?m = "andThen (move_copy_phase E ?t) (move_commit_phase E ?t)"
  have nc: "pathsConflict E (getStorageBasePath E (storageConfig w)) ?t = None"
    using assms by (auto simp: storage_move_data_def Let_def split: option.splits)
  obtain r w' where m: "?m w = (r, w')" by (cases "?m w")
  have "r = Inr p"
    using assms nc m by (auto simp: storage_move_data_def Let_def split: sum.splits)
  then obtain x w1 where "move_copy_phase E ?t w = (Inr x, w1)"
    and c: "move_commit_phase E ?t x w1 = (Inr p, w')"
    using m by (auto simp: andThen_def split: prod.splits sum.splits)
  then show ?thesis using move_commit_phase_target [of E ?t x w1] by simp
qed

text \<open>
  Claim C7, as amended. \<open>storage-move-data\<close> takes its short cut exactly for an argument
  that is not empty and is the current base path character for character when it is
  absolute, or for which \<open>path.resolve\<close> gives exactly the current base path when it is
  relative. For such an argument it returns success with the current base path, and the
  state (the file system, the configuration in memory and on disk) is the one before the
  call: nothing was copied or removed, and a second call gives the same. For every other
  argument the result is not a success with the current base path.
\<close>

theorem move_noop_iff_same_text:
  "(newPath \<noteq> []
      \<and> ((isAbsolute newPath \<and> newPath = getStorageBasePath E (storageConfig w))
          \<or> (\<not> isAbsolute newPath \<and> resolve E newPath = getStorageBasePath E (storageConfig w)))
    \<longrightarrow> storage_move_data E newPath w
           = (Success (Some (getStorageBasePath E (storageConfig w))), w)
        \<and> storage_move_data E newPath (snd (storage_move_data E newPath w))
           = storage_move_data E newPath w)
   \<and> (fst (storage_move_data E newPath w) = Success (Some (getStorageBasePath E (storageConfig w)))
    \<longrightarrow> newPath \<noteq> []
        \<and> ((isAbsolute newPath \<and> newPath = getStorageBasePath E (storageConfig w))
            \<or> (\<not> isAbsolute newPath \<and> resolve E newPath = getStorageBasePath E (storageConfig w))))"
proof (intro conjI impI)
  assume a: "newPath \<noteq> []
      \<and> ((isAbsolute newPath \<and> newPath = getStorageBasePath E (storageConfig w))
          \<or> (\<not> isAbsolute newPath \<and> resolve E newPath = getStorageBasePath E (storageConfig w)))"
  then have "normalizePath E newPath = getStorageBasePath E (storageConfig w)"
    by (auto simp: normalizePath_def)
  then have r: "storage_move_data E newPath w
           = (Success (Some (getStorageBasePath E (storageConfig w))), w)"
    using a by (simp add: storage_move_data_def Let_def)
  show "storage_move_data E newPath w
           = (Success (Some (getStorageBasePath E (storageConfig w))), w)"
    by (rule r)
  show "storage_move_data E newPath (snd (storage_move_data E newPath w))
           = storage_move_data E newPath w"
    by (simp add: r)
next
  assume s: "fst (storage_move_data E newPath w)
               = Success (Some (getStorageBasePath E (storageConfig w)))"
  show "newPath \<noteq> []" using s by (auto simp: storage_move_data_def)
  then have "normalizePath E newPath = getStorageBasePath E (storageConfig w)"
    using move_success_path [OF _ _ s] by metis
  then show "(isAbsolute newPath \<and> newPath = getStorageBasePath E (storageConfig w))
            \<or> (\<not> isAbsolute newPath \<and> resolve E newPath = getStorageBasePath E (storageConfig w))"
    by (auto simp: normalizePath_def split: if_splits)
qed

theorem move_noop_iff_same_text_witness:
  "''../../d'' \<noteq> []
   \<and> \<not> isAbsolute ''../../d''
   \<and> resolve ex_env ''../../d'' = getStorageBasePath ex_env (storageConfig ex_case_world)
   \<and> storage_move_data ex_env ''../../d'' ex_case_world = (Success (Some ''/d''), ex_case_world)
   \<and> lookup (fs ex_case_world) [''d'', ''projects'', ''a.json''] = Some (File ''A'' 1)
   \<and> fst (storage_move_data ex_env ''/d'' ex_case_world)
       = Success (Some (getStorageBasePath ex_env (storageConfig ex_case_world)))
   \<and> isAbsolute ''/d''
   \<and> ''/d'' = getStorageBasePath ex_env (storageConfig ex_case_world)"
proof -
  have h1: "''../../d'' \<noteq> []" by simp
  have h2: "\<not> isAbsolute ''../../d''" by code_simp
  have h3: "resolve ex_env ''../../d'' = getStorageBasePath ex_env (storageConfig ex_case_world)"
    by code_simp
  have b: "getStorageBasePath ex_env (storageConfig ex_case_world) = ''/d''" by code_simp
  have f: "lookup (fs ex_case_world) [''d'', ''projects'', ''a.json''] = Some (File ''A'' 1)"
    by code_simp
  have g: "fst (storage_move_data ex_env ''/d'' ex_case_world)
       = Success (Some (getStorageBasePath ex_env (storageConfig ex_case_world)))"
    by code_simp
  have i: "isAbsolute ''/d''" by code_simp
  have "newPath \<noteq> []
      \<and> ((isAbsolute newPath \<and> newPath = getStorageBasePath ex_env (storageConfig ex_case_world))
          \<or> (\<not> isAbsolute newPath
              \<and> resolve ex_env newPath = getStorageBasePath ex_env (storageConfig ex_case_world)))"
    if "newPath = ''../../d''" for newPath
    using that h2 h3 by simp
  then have r: "storage_move_data ex_env ''../../d'' ex_case_world
                  = (Success (Some ''/d''), ex_case_world)"
    using move_noop_iff_same_text [of "''../../d''" ex_env ex_case_world, THEN conjunct1]
    unfolding b by blast
  have k: "''/d'' = getStorageBasePath ex_env (storageConfig ex_case_world)"
    using move_noop_iff_same_text [of "''/d''" ex_env ex_case_world, THEN conjunct2] g i by blast
  show ?thesis
    by (rule conjI [OF h1 conjI [OF h2 conjI [OF h3 conjI [OF r conjI [OF f conjI [OF g
          conjI [OF i k]]]]]]])
qed

text \<open>
  Claim C7, as stated, fails. With the base path \<open>/d\<close>, the path \<open>/d/.\<close> normalizes and
  resolves to \<open>/d\<close>, and the move is attempted: with a file in the project root the copy of
  the file onto itself is refused and the handler returns a failure, with empty roots the
  handler removes both roots and writes \<open>/d/.\<close> into the configuration. With the working
  directory as the base path, the empty path resolves to the base path and is refused.
\<close>

theorem move_same_directory_not_noop:
  "getStorageBasePath ex_env (storageConfig ex_case_world) = ''/d''
   \<and> normalize ''/d/.'' = ''/d'' \<and> resolve ex_env ''/d/.'' = ''/d''
   \<and> fst (storage_move_data ex_env ''/d/.'' ex_case_world) = Failure (ErrorText ERR_FS_CP_EINVAL)
   \<and> getStorageBasePath ex_env (storageConfig ex_empty_roots_world) = ''/d''
   \<and> storage_move_data ex_env ''/d/.'' ex_empty_roots_world
       = (Success (Some ''/d/.''),
          \<lparr>fs = Dir [(''d'', Dir [])],
           storageConfig =
             \<lparr>basePath = Some ''/d/.'', projectPath = Some [], mediaPath = Some [],
              autoCleanEnabled = None, autoCleanDays = None\<rparr>,
           configFile =
             Some \<lparr>basePath = Some ''/d/.'', projectPath = Some [], mediaPath = Some [],
                   autoCleanEnabled = None, autoCleanDays = None\<rparr>,
           faults = []\<rparr>)
   \<and> getStorageBasePath ex_env (storageConfig ex_cwd_world) = ''/home/u''
   \<and> normalizePath ex_env '''' = ''/home/u''
   \<and> storage_move_data ex_env '''' ex_cwd_world = (Failure PathEmpty, ex_cwd_world)"
proof -
  have a: "getStorageBasePath ex_env (storageConfig ex_case_world) = ''/d''" by code_simp
  have b: "normalize ''/d/.'' = ''/d''" by code_simp
  have c: "resolve ex_env ''/d/.'' = ''/d''" by code_simp
  have d: "fst (storage_move_data ex_env ''/d/.'' ex_case_world) = Failure (ErrorText ERR_FS_CP_EINVAL)"
    by code_simp
  have e: "getStorageBasePath ex_env (storageConfig ex_empty_roots_world) = ''/d''" by code_simp
  have f: "storage_move_data ex_env ''/d/.'' ex_empty_roots_world
       = (Success (Some ''/d/.''),
          \<lparr>fs = Dir [(''d'', Dir [])],
           storageConfig =
             \<lparr>basePath = Some ''/d/.'', projectPath = Some [], mediaPath = Some [],
              autoCleanEnabled = None, autoCleanDays = None\<rparr>,
           configFile =
             Some \<lparr>basePath = Some ''/d/.'', projectPath = Some [], mediaPath = Some [],
                   autoCleanEnabled = None, autoCleanDays = None\<rparr>,
           faults = []\<rparr>)"
    by code_simp
  have g: "getStorageBasePath ex_env (storageConfig ex_cwd_world) = ''/home/u''" by code_simp
  have h: "normalizePath ex_env '''' = ''/home/u''" by code_simp
  have i: "storage_move_data ex_env '''' ex_cwd_world = (Failure PathEmpty, ex_cwd_world)"
    by code_simp
  show ?thesis using a b c d e f g h i by simp
qed

section \<open>A failed move keeps the configuration\<close>

lemma keeps_ret: "keeps_config (ret x)"
  by (simp add: keeps_config_def ret_def)

lemma keeps_throw: "keeps_config (throw e)"
  by (simp add: keeps_config_def throw_def)

lemma keeps_andThen:
  assumes "keeps_config m" and "\<And>x. keeps_config (f x)"
  shows "keeps_config (andThen m f)"
  unfolding keeps_config_def
proof (intro allI)
  fix w
  obtain r w' where mw: "m w = (r, w')" by (cases "m w")
  have k: "storageConfig w' = storageConfig w \<and> configFile w' = configFile w"
    using assms(1) mw by (auto simp: keeps_config_def dest: spec [of _ w])
  show "storageConfig (snd (andThen m f w)) = storageConfig w \<and>
        configFile (snd (andThen m f w)) = configFile w"
  proof (cases r)
    case (Inl e)
    then show ?thesis using mw k by (simp add: andThen_def)
  next
    case (Inr x)
    have "storageConfig (snd (f x w')) = storageConfig w' \<and> configFile (snd (f x w')) = configFile w'"
      using assms(2) [of x] by (simp add: keeps_config_def)
    then show ?thesis using mw k Inr by (simp add: andThen_def)
  qed
qed

lemma keeps_swallow: "keeps_config m \<Longrightarrow> keeps_config (swallow m)"
  by (simp add: keeps_config_def swallow_def)

lemma keeps_exists_io: "keeps_config (exists_io E p)"
  by (simp add: keeps_config_def exists_io_def)

lemma keeps_mkdirSync: "keeps_config (mkdirSync E p)"
  by (auto simp: keeps_config_def mkdirSync_def split: prod.splits option.splits fault.splits sum.splits)

lemma keeps_readdirTypes: "keeps_config (readdirTypes E p)"
  by (auto simp: keeps_config_def readdirTypes_def split: option.splits node.splits)

lemma keeps_readdir: "keeps_config (readdir E p)"
  by (simp add: readdir_def keeps_andThen keeps_readdirTypes keeps_ret)

lemma keeps_cp: "keeps_config (cp E s d)"
  by (auto simp: keeps_config_def cp_def split: prod.splits option.splits fault.splits)

lemma keeps_rm: "keeps_config (rm E p)"
  by (auto simp: keeps_config_def rm_def split: prod.splits option.splits fault.splits)

lemma keeps_ensureDir: "keeps_config (ensureDir E p)"
  using keeps_mkdirSync [of E p] by (simp add: keeps_config_def ensureDir_def)

lemma keeps_getProjectDataRoot: "keeps_config (getProjectDataRoot E)"
  unfolding keeps_config_def getProjectDataRoot_def Let_def
proof (intro allI)
  fix w
  have "keeps_config (andThen (ensureDir E b) (\<lambda>_. ret b))" for b
    by (intro keeps_andThen keeps_ensureDir keeps_ret)
  then show "storageConfig (snd (andThen (ensureDir E (join (getStorageBasePath E (storageConfig w)) ''projects''))
                 (\<lambda>_. ret (join (getStorageBasePath E (storageConfig w)) ''projects'')) w)) = storageConfig w \<and>
        configFile (snd (andThen (ensureDir E (join (getStorageBasePath E (storageConfig w)) ''projects''))
                 (\<lambda>_. ret (join (getStorageBasePath E (storageConfig w)) ''projects'')) w)) = configFile w"
    by (simp add: keeps_config_def)
qed

lemma keeps_getMediaRoot: "keeps_config (getMediaRoot E)"
  unfolding keeps_config_def getMediaRoot_def Let_def
proof (intro allI)
  fix w
  have "keeps_config (andThen (ensureDir E b) (\<lambda>_. ret b))" for b
    by (intro keeps_andThen keeps_ensureDir keeps_ret)
  then show "storageConfig (snd (andThen (ensureDir E (join (getStorageBasePath E (storageConfig w)) ''media''))
                 (\<lambda>_. ret (join (getStorageBasePath E (storageConfig w)) ''media'')) w)) = storageConfig w \<and>
        configFile (snd (andThen (ensureDir E (join (getStorageBasePath E (storageConfig w)) ''media''))
                 (\<lambda>_. ret (join (getStorageBasePath E (storageConfig w)) ''media'')) w)) = configFile w"
    by (simp add: keeps_config_def)
qed

lemma keeps_copy_each: "keeps_config (copy_each E a b files)"
  by (induction files) (simp_all add: keeps_ret keeps_andThen keeps_cp)

lemma keeps_copy_entries: "keeps_config (copy_entries E a b)"
  unfolding copy_entries_def
  by (intro keeps_andThen keeps_exists_io) (simp add: keeps_ret keeps_andThen keeps_readdir keeps_copy_each)

lemma keeps_move_copy_phase: "keeps_config (move_copy_phase E target)"
  unfolding move_copy_phase_def Let_def
  by (intro keeps_andThen keeps_ensureDir keeps_getProjectDataRoot keeps_getMediaRoot
        keeps_copy_entries keeps_ret)

lemma swallow_Inr: "fst (swallow m w) = Inr ()"
  by (simp add: swallow_def)

lemma move_commit_phase_returns: "\<exists>p. fst (move_commit_phase E target dirs w) = Inr p"
  by (cases dirs) (auto simp: move_commit_phase_def andThen_def ret_def swallow_def split: prod.splits sum.splits)

text \<open>
  Claim C2. Whenever \<open>storage-move-data\<close> returns a failure, whatever failed and wherever,
  the configuration is the one before the call, in memory and on disk, and its \<open>basePath\<close>
  with it: the configuration is merged and saved only after both copy loops have
  finished, and nothing after that makes the handler fail.
\<close>

theorem move_failure_keeps_config:
  assumes "fst (storage_move_data E newPath w) = Failure m"
  shows "storageConfig (snd (storage_move_data E newPath w)) = storageConfig w
         \<and> configFile (snd (storage_move_data E newPath w)) = configFile w"
proof (cases "newPath = [] \<or> getStorageBasePath E (storageConfig w) = normalizePath E newPath
              \<or> pathsConflict E (getStorageBasePath E (storageConfig w)) (normalizePath E newPath) \<noteq> None")
  case True
  then show ?thesis by (auto simp: storage_move_data_def Let_def)
next
  case False
  let ?t = "normalizePath E newPath"
  from False have eq: "storage_move_data E newPath w =
      (case andThen (move_copy_phase E ?t) (move_commit_phase E ?t) w of
         (Inl e, w') \<Rightarrow> (Failure (ErrorText e), w')
       | (Inr p, w') \<Rightarrow> (Success (Some p), w'))"
    by (auto simp: storage_move_data_def Let_def)
  obtain r w1 where c: "move_copy_phase E ?t w = (r, w1)" by (cases "move_copy_phase E ?t w")
  have k: "storageConfig w1 = storageConfig w \<and> configFile w1 = configFile w"
    using keeps_move_copy_phase [of E ?t] c by (auto simp: keeps_config_def dest: spec [of _ w])
  show ?thesis
  proof (cases r)
    case (Inl e)
    then show ?thesis using eq c k by (simp add: andThen_def)
  next
    case (Inr dirs)
    obtain p where "fst (move_commit_phase E ?t dirs w1) = Inr p"
      using move_commit_phase_returns by blast
    then have "\<exists>w2. move_commit_phase E ?t dirs w1 = (Inr p, w2)"
      by (cases "move_commit_phase E ?t dirs w1") simp
    then have "\<exists>p w2. storage_move_data E newPath w = (Success p, w2)"
      using eq c Inr by (auto simp: andThen_def)
    with assms show ?thesis by auto
  qed
qed

theorem move_failure_keeps_config_witness:
  "fst (storage_move_data ex_env ''/new'' ex_move_world) = Failure (ErrorText (Injected 28))
   \<and> storageConfig (snd (storage_move_data ex_env ''/new'' ex_move_world)) = ex_config
   \<and> configFile (snd (storage_move_data ex_env ''/new'' ex_move_world)) = None"
proof -
  have h: "fst (storage_move_data ex_env ''/new'' ex_move_world) = Failure (ErrorText (Injected 28))"
    by code_simp
  show ?thesis
    using h move_failure_keeps_config [OF h] by (simp add: ex_move_world_def)
qed

section \<open>Validation only reads\<close>

lemma read_only_ret: "read_only (ret x)"
  by (simp add: read_only_def ret_def)

lemma read_only_andThen:
  assumes "read_only m" and "\<And>x. read_only (f x)"
  shows "read_only (andThen m f)"
  unfolding read_only_def
proof (intro allI)
  fix w
  obtain r w' where mw: "m w = (r, w')" by (cases "m w")
  have k: "w' = w" using assms(1) mw by (auto simp: read_only_def dest: spec [of _ w])
  show "snd (andThen m f w) = w"
  proof (cases r)
    case (Inl e)
    then show ?thesis using mw k by (simp add: andThen_def)
  next
    case (Inr x)
    have "snd (f x w) = w" using assms(2) [of x] by (simp add: read_only_def)
    then show ?thesis using mw k Inr by (simp add: andThen_def)
  qed
qed

lemma read_only_exists_io: "read_only (exists_io E p)"
  by (simp add: read_only_def exists_io_def)

lemma read_only_readdirTypes: "read_only (readdirTypes E p)"
  by (auto simp: read_only_def readdirTypes_def split: option.splits node.splits)

lemma read_only_readdir: "read_only (readdir E p)"
  by (simp add: readdir_def read_only_andThen read_only_readdirTypes read_only_ret)

lemma read_only_stat: "read_only (stat E p)"
  by (auto simp: read_only_def stat_def split: option.splits node.splits)

lemma read_only_count_projects: "read_only (count_projects E p)"
  unfolding count_projects_def Let_def
  by (intro read_only_andThen read_only_exists_io)
     (auto intro!: read_only_andThen read_only_exists_io read_only_readdir read_only_readdirTypes
        read_only_ret)

lemma read_only_count_media: "read_only (count_media E p)"
  unfolding count_media_def
  by (intro read_only_andThen read_only_exists_io)
     (auto intro!: read_only_andThen read_only_readdir read_only_ret)

lemma read_only_validate_body: "read_only (validate_body E p)"
  unfolding validate_body_def Let_def
  by (auto intro!: read_only_andThen read_only_exists_io read_only_count_projects
        read_only_count_media read_only_ret)

text \<open>
  Claim C8. \<open>validateDataDirInternal\<close> returns the state it was given: the file system
  (and everything else) is not changed. A second call right after the first returns the
  same result.
\<close>

theorem validate_read_only:
  "snd (validateDataDirInternal E dirPath w) = w
   \<and> fst (validateDataDirInternal E dirPath (snd (validateDataDirInternal E dirPath w)))
       = fst (validateDataDirInternal E dirPath w)"
proof -
  have "snd (validate_body E dirPath w) = w"
    using read_only_validate_body [of E dirPath] by (simp add: read_only_def)
  then have "snd (validateDataDirInternal E dirPath w) = w"
    by (cases "validate_body E dirPath w") (auto simp: validateDataDirInternal_def split: sum.splits)
  then show ?thesis by simp
qed

section \<open>The threshold of clearCache\<close>

text \<open>
  Claim C10. \<open>clearCache\<close> prunes by age only when \<open>olderThanDays\<close> is a number greater than
  0; for 0, for a negative number and for an absent value it removes and recreates every
  cache directory. With 0 on the example state, the file of the current time is removed
  with the rest.
\<close>

theorem clearCache_zero_is_wholesale:
  "clearCache n E (Some d) w =
     (if d > 0 then clear_by_age n E (now E - d * 24 * 60 * 60 * 1000) (getCacheDirs E) 0 w
      else clear_all n E (getCacheDirs E) 0 w)
   \<and> clearCache n E None w = clear_all n E (getCacheDirs E) 0 w
   \<and> clearCache n E (Some 0) w = clearCache n E None w
   \<and> clearCache 3 ex_env (Some 0) ex_cache_world =
       Some (Inr 10,
             ex_cache_world\<lparr>fs := Dir [(''ud'',
               Dir [(''Cache'', Dir []), (''Code Cache'', Dir []), (''GPUCache'', Dir [])])]\<rparr>)"
proof -
  have "clearCache 3 ex_env (Some 0) ex_cache_world =
       Some (Inr 10,
             ex_cache_world\<lparr>fs := Dir [(''ud'',
               Dir [(''Cache'', Dir []), (''Code Cache'', Dir []), (''GPUCache'', Dir [])])]\<rparr>)"
    by code_simp
  then show ?thesis by (simp add: clearCache_def Let_def)
qed

section \<open>Paths and their segments\<close>

lemma split_sep_nonempty [simp]: "split_sep s \<noteq> []"
  by (induction s) (auto split: list.splits)

lemma split_sep_append: "split_sep (a @ CHR ''/'' # b) = split_sep a @ split_sep b"
  by (induction a) (auto split: list.splits)

lemma split_sep_noslash: "CHR ''/'' \<notin> set s \<Longrightarrow> split_sep s = [s]"
  by (induction s) auto

lemma split_sep_slashfree: "x \<in> set (split_sep s) \<Longrightarrow> CHR ''/'' \<notin> set x"
  by (induction s arbitrary: x) (auto split: if_splits list.splits)

lemma split_join_segs:
  "xs \<noteq> [] \<Longrightarrow> \<forall>x\<in>set xs. CHR ''/'' \<notin> set x \<Longrightarrow> split_sep (join_segs xs) = xs"
proof (induction xs rule: join_segs.induct)
  case 1
  then show ?case by simp
next
  case (2 s)
  then show ?case by (simp add: split_sep_noslash)
next
  case (3 s t ss)
  then show ?case by (simp add: split_sep_append split_sep_noslash)
qed

lemma hd_join_segs: "xs \<noteq> [] \<Longrightarrow> hd xs \<noteq> [] \<Longrightarrow> hd (join_segs xs) = hd (hd xs)"
  by (induction xs rule: join_segs.induct) auto

lemma join_segs_Nil_iff: "\<forall>x\<in>set xs. x \<noteq> [] \<Longrightarrow> join_segs xs = [] \<longleftrightarrow> xs = []"
  by (induction xs rule: join_segs.induct) auto

lemma join_segs_snoc: "xs \<noteq> [] \<Longrightarrow> join_segs (xs @ [s]) = join_segs xs @ ''/'' @ s"
  by (induction xs rule: join_segs.induct) auto

text \<open>The left fold of \<open>norm_step\<close>.\<close>

lemma norm_fold_plain:
  "\<forall>x\<in>set xs. plain x \<Longrightarrow> foldl (norm_step b) acc xs = acc @ xs"
  by (induction xs arbitrary: acc) (auto simp: norm_step_def plain_def)

lemma norm_step_False_plain:
  assumes "\<forall>x\<in>set acc. plain x" and "CHR ''/'' \<notin> set s"
  shows "\<forall>x\<in>set (norm_step False acc s). plain x"
  using assms by (auto simp: norm_step_def plain_def dest: in_set_butlastD)

lemma norm_fold_False_plain:
  "\<forall>x\<in>set acc. plain x \<Longrightarrow> \<forall>s\<in>set xs. CHR ''/'' \<notin> set s
     \<Longrightarrow> \<forall>x\<in>set (foldl (norm_step False) acc xs). plain x"
proof (induction xs arbitrary: acc)
  case Nil
  then show ?case by simp
next
  case (Cons s xs)
  have "\<forall>x\<in>set (norm_step False acc s). plain x"
    using Cons.prems by (intro norm_step_False_plain) auto
  then show ?case using Cons by simp
qed

lemma normalizeString_False_plain: "x \<in> set (normalizeString False p) \<Longrightarrow> plain x"
  using norm_fold_False_plain [of "[]" "split_sep p"]
  by (auto simp: normalizeString_def dest: split_sep_slashfree)

lemma norm_fold_True_ok:
  "\<forall>x\<in>set acc. okseg x \<Longrightarrow> \<forall>s\<in>set xs. CHR ''/'' \<notin> set s
     \<Longrightarrow> \<forall>x\<in>set (foldl (norm_step True) acc xs). okseg x"
proof (induction xs arbitrary: acc)
  case Nil
  then show ?case by simp
next
  case (Cons s xs)
  have "\<forall>x\<in>set (norm_step True acc s). okseg x"
    using Cons.prems by (auto simp: norm_step_def okseg_def dest: in_set_butlastD)
  then show ?case using Cons by simp
qed

lemma normalizeString_True_ok: "x \<in> set (normalizeString True p) \<Longrightarrow> okseg x"
  using norm_fold_True_ok [of "[]" "split_sep p"]
  by (auto simp: normalizeString_def dest: split_sep_slashfree)

lemma norm_fold_snoc: "foldl (norm_step b) acc (xs @ [s]) = norm_step b (foldl (norm_step b) acc xs) s"
  by simp

text \<open>Normalizing a relative path first does not change where it leads.\<close>

lemma norm_fold_relative:
  "\<forall>s\<in>set xs. CHR ''/'' \<notin> set s \<Longrightarrow>
   foldl (norm_step False) acc (foldl (norm_step True) [] xs) = foldl (norm_step False) acc xs"
proof (induction xs rule: rev_induct)
  case Nil
  then show ?case by simp
next
  case (snoc s xs)
  let ?R = "foldl (norm_step True) [] xs"
  let ?A = "foldl (norm_step False) acc xs"
  have IH: "foldl (norm_step False) acc ?R = ?A" using snoc by simp
  have ok: "\<forall>x\<in>set ?R. okseg x"
    using norm_fold_True_ok [of "[]" xs] snoc.prems by simp
  have goal: "foldl (norm_step False) acc (norm_step True ?R s) = norm_step False ?A s"
  proof (cases "s = [] \<or> s = ''.''")
    case True
    then show ?thesis using IH by (auto simp: norm_step_def)
  next
    case False
    show ?thesis
    proof (cases "s = ''..''")
      case dd: True
      show ?thesis
      proof (cases "?R \<noteq> [] \<and> last ?R \<noteq> ''..''")
        case True
        then have R: "?R = butlast ?R @ [last ?R]" by simp
        have l: "last ?R \<noteq> [] \<and> last ?R \<noteq> ''.'' \<and> last ?R \<noteq> ''..''"
          using True ok by (auto simp: okseg_def dest: last_in_set)
        have "?A = foldl (norm_step False) acc (butlast ?R @ [last ?R])"
          using IH R by simp
        also have "\<dots> = foldl (norm_step False) acc (butlast ?R) @ [last ?R]"
          using l by (simp add: norm_step_def)
        finally have A: "?A = foldl (norm_step False) acc (butlast ?R) @ [last ?R]" .
        have "norm_step False (foldl (norm_step False) acc (butlast ?R) @ [last ?R]) s
                = foldl (norm_step False) acc (butlast ?R)"
          using dd l by (simp add: norm_step_def)
        then have "norm_step False ?A s = foldl (norm_step False) acc (butlast ?R)"
          using A by simp
        moreover have "norm_step True ?R s = butlast ?R"
          using dd True by (simp add: norm_step_def)
        ultimately show ?thesis by simp
      next
        case False
        then have "norm_step True ?R s = ?R @ [s]"
          using dd by (auto simp: norm_step_def)
        then show ?thesis using IH by simp
      qed
    next
      case nd: False
      then have "norm_step True ?R s = ?R @ [s]"
        using False by (auto simp: norm_step_def)
      then show ?thesis using IH by simp
    qed
  qed
  then show ?case by simp
qed

lemma segs_absolute: "isAbsolute p \<Longrightarrow> segs E p = normalizeString False p"
  by (simp add: segs_def)

lemma segs_relative:
  "\<not> isAbsolute p \<Longrightarrow> segs E p = foldl (norm_step False) (cwd_segs E) (split_sep p)"
  by (simp add: segs_def cwd_segs_def normalizeString_def split_sep_append)

lemma segs_plain: "x \<in> set (segs E p) \<Longrightarrow> plain x"
  by (auto simp: segs_def dest: normalizeString_False_plain)

lemma norm_fold_drop_empty: "foldl (norm_step b) acc ([] # xs) = foldl (norm_step b) acc xs"
  by (simp add: norm_step_def)

lemma norm_fold_trailing: "foldl (norm_step b) acc (xs @ [[]]) = foldl (norm_step b) acc xs"
  by (simp add: norm_step_def)

lemma segs_normalize:
  assumes "p \<noteq> []"
  shows "segs E (normalize p) = segs E p"
proof (cases "isAbsolute p")
  case True
  let ?R = "normalizeString False p"
  have pl: "\<forall>x\<in>set ?R. plain x" by (auto dest: normalizeString_False_plain)
  have ne: "\<forall>x\<in>set ?R. x \<noteq> []" using pl by (auto simp: plain_def)
  have sl: "\<forall>x\<in>set ?R. CHR ''/'' \<notin> set x" using pl by (auto simp: plain_def)
  show ?thesis
  proof (cases "?R = []")
    case R: True
    then have "normalize p = ''/''"
      using True assms by (simp add: normalize_def Let_def)
    then show ?thesis using True R
      by (simp add: segs_def isAbsolute_def normalizeString_def norm_step_def)
  next
    case R: False
    then have q: "join_segs ?R \<noteq> []" using join_segs_Nil_iff [OF ne] by simp
    have n: "normalize p = ''/'' @ join_segs ?R @ (if last p = CHR ''/'' then ''/'' else [])"
      using True assms q by (simp add: normalize_def Let_def)
    have abs: "isAbsolute (normalize p)" by (simp add: n isAbsolute_def)
    have "split_sep (normalize p) = [] # ?R @ (if last p = CHR ''/'' then [[]] else [])"
      using split_join_segs [OF R sl]
      by (auto simp: n split_sep_append)
    then have "normalizeString False (normalize p) = foldl (norm_step False) [] ?R"
      by (auto simp: normalizeString_def norm_step_def)
    also have "\<dots> = ?R" using norm_fold_plain [OF pl, of False "[]"] by simp
    finally show ?thesis using abs True by (simp add: segs_absolute)
  qed
next
  case False
  let ?R = "normalizeString True p"
  have sp: "\<forall>s\<in>set (split_sep p). CHR ''/'' \<notin> set s" by (auto dest: split_sep_slashfree)
  have ok: "\<forall>x\<in>set ?R. okseg x" by (auto dest: normalizeString_True_ok)
  have ne: "\<forall>x\<in>set ?R. x \<noteq> []" using ok by (auto simp: okseg_def)
  have sl: "\<forall>x\<in>set ?R. CHR ''/'' \<notin> set x" using ok by (auto simp: okseg_def)
  have key: "foldl (norm_step False) (cwd_segs E) ?R = segs E p"
    using norm_fold_relative [OF sp, of "cwd_segs E"] False
    by (simp add: segs_relative normalizeString_def)
  show ?thesis
  proof (cases "?R = []")
    case R: True
    then have "normalize p = ''.'' \<or> normalize p = ''./''"
      using False assms by (simp add: normalize_def Let_def)
    then have "segs E (normalize p) = cwd_segs E"
      by (auto simp: segs_relative isAbsolute_def norm_step_def)
    then show ?thesis using key R by simp
  next
    case R: False
    then have q: "join_segs ?R \<noteq> []" using join_segs_Nil_iff [OF ne] by simp
    have n: "normalize p = join_segs ?R @ (if last p = CHR ''/'' then ''/'' else [])"
      using False assms q by (simp add: normalize_def Let_def)
    have "hd (join_segs ?R) = hd (hd ?R)"
      using R ne by (intro hd_join_segs) auto
    moreover have "hd (hd ?R) \<noteq> CHR ''/''"
      using R sl ne by (metis hd_in_set)
    ultimately have rel: "\<not> isAbsolute (normalize p)"
      using q by (simp add: n isAbsolute_def)
    have "split_sep (normalize p) = ?R @ (if last p = CHR ''/'' then [[]] else [])"
      using split_join_segs [OF R sl] by (auto simp: n split_sep_append)
    then have "segs E (normalize p) = foldl (norm_step False) (cwd_segs E) ?R"
      using rel by (auto simp: segs_relative norm_step_def)
    then show ?thesis using key by simp
  qed
qed

lemma segs_append_name:
  assumes "plain n" and "a \<noteq> []"
  shows "segs E (a @ ''/'' @ n) = segs E a @ [n]"
proof -
  have abs: "isAbsolute (a @ ''/'' @ n) = isAbsolute a"
    using assms(2) by (simp add: isAbsolute_def)
  have sn: "split_sep n = [n]" using assms(1) by (simp add: plain_def split_sep_noslash)
  have st: "norm_step False acc n = acc @ [n]" for acc
    using assms(1) by (simp add: norm_step_def plain_def)
  show ?thesis
  proof (cases "isAbsolute a")
    case True
    then show ?thesis using abs sn st
      by (simp add: segs_absolute normalizeString_def split_sep_append)
  next
    case False
    then show ?thesis using abs sn st
      by (simp add: segs_relative split_sep_append)
  qed
qed

lemma segs_empty: "segs E [] = cwd_segs E"
  by (simp add: segs_relative isAbsolute_def norm_step_def)

lemma segs_join:
  assumes "plain n"
  shows "segs E (join a n) = segs E a @ [n]"
proof (cases "a = []")
  case True
  have n0: "n \<noteq> []" using assms by (simp add: plain_def)
  have rel: "\<not> isAbsolute n" using assms by (cases n) (auto simp: plain_def isAbsolute_def)
  have "join a n = normalize n" using True n0 by (simp add: join_def path_join_def)
  then have "segs E (join a n) = segs E n" using n0 by (simp add: segs_normalize)
  also have "\<dots> = cwd_segs E @ [n]"
    using rel assms by (simp add: segs_relative split_sep_noslash plain_def norm_step_def)
  finally show ?thesis using True by (simp add: segs_empty)
next
  case False
  have n0: "n \<noteq> []" using assms by (simp add: plain_def)
  have "join a n = normalize (a @ ''/'' @ n)"
    using False n0 by (simp add: join_def path_join_def)
  then show ?thesis using segs_normalize [of "a @ ''/'' @ n" E] segs_append_name [OF assms False]
    by simp
qed

lemma segs_join3:
  assumes "plain n1" and "plain n2" and "a \<noteq> []"
  shows "segs E (path_join [a, n1, n2]) = segs E a @ [n1, n2]"
proof -
  have n0: "n1 \<noteq> []" "n2 \<noteq> []" using assms by (simp_all add: plain_def)
  have "path_join [a, n1, n2] = normalize ((a @ ''/'' @ n1) @ ''/'' @ n2)"
    using assms(3) n0 by (simp add: path_join_def)
  then have "segs E (path_join [a, n1, n2]) = segs E ((a @ ''/'' @ n1) @ ''/'' @ n2)"
    using segs_normalize [of "(a @ ''/'' @ n1) @ ''/'' @ n2" E] by simp
  also have "\<dots> = segs E (a @ ''/'' @ n1) @ [n2]"
    using segs_append_name [OF assms(2), of "a @ ''/'' @ n1" E] by simp
  also have "\<dots> = segs E a @ [n1, n2]"
    using segs_append_name [OF assms(1) assms(3), of E] by simp
  finally show ?thesis .
qed

lemma join_nonempty: "join a b \<noteq> []"
  by (auto simp: join_def path_join_def normalize_def Let_def)

section \<open>Case folding and path conflicts\<close>

lemma lower_char_slash [simp]: "lower_char c = CHR ''/'' \<longleftrightarrow> c = CHR ''/''"
  by (auto simp: lower_char_def split: if_splits)

lemma lower_char_dot [simp]: "lower_char c = CHR ''.'' \<longleftrightarrow> c = CHR ''.''"
  by (auto simp: lower_char_def split: if_splits)

lemma lower_char_slash_id [simp]: "lower_char CHR ''/'' = CHR ''/''"
  by (simp add: lower_char_def)

lemma toLowerCase_dot [simp]: "map lower_char s = ''.'' \<longleftrightarrow> s = ''.''"
  by (cases s) auto

lemma toLowerCase_dotdot [simp]: "map lower_char s = ''..'' \<longleftrightarrow> s = ''..''"
  by (cases s; cases "tl s") auto

lemma split_sep_lower: "split_sep (map lower_char s) = map (map lower_char) (split_sep s)"
  by (induction s) (auto split: list.splits)

lemma norm_step_lower:
  "norm_step b (map (map lower_char) acc) (map lower_char s) = map (map lower_char) (norm_step b acc s)"
  by (auto simp: norm_step_def last_map map_butlast)

lemma norm_fold_lower:
  "foldl (norm_step b) (map (map lower_char) acc) (map (map lower_char) xs)
     = map (map lower_char) (foldl (norm_step b) acc xs)"
  by (induction xs arbitrary: acc) (simp_all add: norm_step_lower)

lemma normalizeString_lower:
  "normalizeString b (map lower_char p) = map (map lower_char) (normalizeString b p)"
  using norm_fold_lower [of b "[]" "split_sep p"]
  by (simp add: normalizeString_def split_sep_lower)

lemma join_segs_lower: "join_segs (map (map lower_char) xs) = map lower_char (join_segs xs)"
  by (induction xs rule: join_segs.induct) auto

lemma isAbsolute_lower: "isAbsolute (map lower_char p) = isAbsolute p"
  by (cases p) (auto simp: isAbsolute_def)

lemma toLowerCase_resolve:
  "toLowerCase (resolve E p) = resolve (E\<lparr>cwd := toLowerCase (cwd E)\<rparr>) (toLowerCase p)"
proof -
  have "map lower_char (if isAbsolute p then p else cwd E @ ''/'' @ p)
        = (if isAbsolute p then map lower_char p else map lower_char (cwd E) @ ''/'' @ map lower_char p)"
    by (simp add: lower_char_def)
  then show ?thesis
    by (simp add: resolve_def toLowerCase_def isAbsolute_lower join_segs_lower [symmetric]
          normalizeString_lower [symmetric] lower_char_def)
qed

lemma pathsConflict_same_modulo_case:
  assumes "toLowerCase a = toLowerCase b"
  shows "pathsConflict E a b = None"
  using assms by (simp add: pathsConflict_def toLowerCase_resolve)

text \<open>
  Claim C9. The conflict test folds the case of both paths before it compares them; the
  test for the current base path compares the strings as they are. Hence, past the guard
  for an empty argument, a target that differs from the current base path only in the
  case of its letters is neither answered as the current base path nor refused as a
  conflict: the handler runs its copy phase, and its result is the result of that phase
  and of what follows it.
\<close>

theorem move_case_variant_reaches_copy_phase:
  assumes "newPath \<noteq> []"
    and "normalizePath E newPath \<noteq> getStorageBasePath E (storageConfig w)"
    and "toLowerCase (normalizePath E newPath) = toLowerCase (getStorageBasePath E (storageConfig w))"
  shows "pathsConflict E (getStorageBasePath E (storageConfig w)) (normalizePath E newPath) = None
    \<and> storage_move_data E newPath w =
       (case andThen (move_copy_phase E (normalizePath E newPath))
               (move_commit_phase E (normalizePath E newPath)) w of
          (Inl e, w') \<Rightarrow> (Failure (ErrorText e), w')
        | (Inr p, w') \<Rightarrow> (Success (Some p), w'))"
proof -
  have "pathsConflict E (getStorageBasePath E (storageConfig w)) (normalizePath E newPath) = None"
    using assms(3) by (intro pathsConflict_same_modulo_case) simp
  then show ?thesis using assms(1,2) by (auto simp: storage_move_data_def Let_def)
qed

lemma resolve_segs: "resolve E p = ''/'' @ join_segs (segs E p)"
  by (simp add: resolve_def segs_def)

lemma segs_of_rooted:
  assumes "\<forall>x\<in>set xs. plain x"
  shows "segs E (''/'' @ join_segs xs) = xs"
proof (cases "xs = []")
  case True
  then show ?thesis
    by (simp add: segs_def isAbsolute_def normalizeString_def norm_step_def)
next
  case False
  have "\<forall>x\<in>set xs. CHR ''/'' \<notin> set x" using assms by (auto simp: plain_def)
  then have "split_sep (''/'' @ join_segs xs) = [] # xs"
    using split_join_segs [OF False] split_sep_append [of "[]" "join_segs xs"] by simp
  then show ?thesis
    using norm_fold_plain [OF assms, of False "[]"]
    by (simp add: segs_def isAbsolute_def normalizeString_def norm_step_def)
qed

lemma segs_resolve: "segs E (resolve E p) = segs E p"
  using segs_of_rooted [of "segs E p" E] by (auto simp: resolve_segs dest: segs_plain)

lemma segs_normalizePath: "segs E (normalizePath E p) = segs E p"
  by (simp add: normalizePath_def segs_resolve)

lemma join_segs_append:
  "xs \<noteq> [] \<Longrightarrow> ys \<noteq> [] \<Longrightarrow> join_segs (xs @ ys) = join_segs xs @ ''/'' @ join_segs ys"
  by (induction xs rule: join_segs.induct) (auto, (cases ys; simp)+)

lemma isSubdirectory_descendant:
  assumes "segs E parent \<noteq> []" and "strict_prefix (segs E parent) (segs E child)"
  shows "isSubdirectory E parent child"
    and "\<not> isSubdirectory E child parent"
    and "toLowerCase (resolve E parent) \<noteq> toLowerCase (resolve E child)"
proof -
  obtain r where r: "segs E child = segs E parent @ r" "r \<noteq> []"
    using assms(2) by (auto simp: strict_prefix_def prefix_def)
  have j: "join_segs (segs E child) = join_segs (segs E parent) @ ''/'' @ join_segs r"
    using r assms(1) by (simp add: join_segs_append)
  show "isSubdirectory E parent child"
    by (simp add: isSubdirectory_def Let_def startsWith_def sep_def resolve_segs j toLowerCase_def)
  have len: "length (resolve E parent) < length (resolve E child)"
    by (simp add: resolve_segs j)
  then show "toLowerCase (resolve E parent) \<noteq> toLowerCase (resolve E child)"
    by (metis length_map toLowerCase_def less_irrefl)
  show "\<not> isSubdirectory E child parent"
  proof
    assume "isSubdirectory E child parent"
    then have "prefix (toLowerCase (resolve E child) @ sep) (toLowerCase (resolve E parent) @ sep)"
      by (simp add: isSubdirectory_def Let_def startsWith_def)
    then have "length (toLowerCase (resolve E child) @ sep) \<le> length (toLowerCase (resolve E parent) @ sep)"
      by (rule prefix_length_le)
    then show False using len by (simp add: toLowerCase_def)
  qed
qed

lemma pathsConflict_detects:
  "segs E source \<noteq> [] \<Longrightarrow> strict_prefix (segs E source) (segs E dest)
     \<Longrightarrow> pathsConflict E source dest = Some TargetInsideCurrent"
  "segs E dest \<noteq> [] \<Longrightarrow> strict_prefix (segs E dest) (segs E source)
     \<Longrightarrow> pathsConflict E source dest = Some CurrentInsideTarget"
  using isSubdirectory_descendant [of E source dest] isSubdirectory_descendant [of E dest source]
  by (auto simp: pathsConflict_def Let_def)

lemma move_conflict_below_root:
  assumes "newPath \<noteq> []"
  shows "segs E (getStorageBasePath E (storageConfig w)) \<noteq> [] \<Longrightarrow>
         strict_prefix (segs E (getStorageBasePath E (storageConfig w))) (segs E newPath) \<Longrightarrow>
         storage_move_data E newPath w = (Failure (Conflict TargetInsideCurrent), w)"
    and "segs E newPath \<noteq> [] \<Longrightarrow>
         strict_prefix (segs E newPath) (segs E (getStorageBasePath E (storageConfig w))) \<Longrightarrow>
         storage_move_data E newPath w = (Failure (Conflict CurrentInsideTarget), w)"
proof -
  have sn: "segs E (normalizePath E newPath) = segs E newPath"
    by (rule segs_normalizePath)
  show "storage_move_data E newPath w = (Failure (Conflict TargetInsideCurrent), w)"
    if "segs E (getStorageBasePath E (storageConfig w)) \<noteq> []"
      and "strict_prefix (segs E (getStorageBasePath E (storageConfig w))) (segs E newPath)"
    using that assms pathsConflict_detects(1) [of E "getStorageBasePath E (storageConfig w)" "normalizePath E newPath"]
    by (auto simp: storage_move_data_def Let_def sn)
  show "storage_move_data E newPath w = (Failure (Conflict CurrentInsideTarget), w)"
    if "segs E newPath \<noteq> []"
      and "strict_prefix (segs E newPath) (segs E (getStorageBasePath E (storageConfig w)))"
    using that assms pathsConflict_detects(2) [of E "normalizePath E newPath" "getStorageBasePath E (storageConfig w)"]
    by (auto simp: storage_move_data_def Let_def sn)
qed

theorem move_case_variant_reaches_copy_phase_witness:
  "''/D'' \<noteq> []
   \<and> normalizePath ex_env ''/D'' \<noteq> getStorageBasePath ex_env (storageConfig ex_case_world)
   \<and> toLowerCase (normalizePath ex_env ''/D'')
       = toLowerCase (getStorageBasePath ex_env (storageConfig ex_case_world))
   \<and> pathsConflict ex_env (getStorageBasePath ex_env (storageConfig ex_case_world))
         (normalizePath ex_env ''/D'') = None
   \<and> fst (storage_move_data ex_env ''/D'' ex_case_world) = Success (Some ''/D'')"
proof -
  have h1: "''/D'' \<noteq> []" by simp
  have h2: "normalizePath ex_env ''/D'' \<noteq> getStorageBasePath ex_env (storageConfig ex_case_world)"
    by code_simp
  have h3: "toLowerCase (normalizePath ex_env ''/D'')
       = toLowerCase (getStorageBasePath ex_env (storageConfig ex_case_world))"
    by code_simp
  have r: "fst (case andThen (move_copy_phase ex_env (normalizePath ex_env ''/D''))
               (move_commit_phase ex_env (normalizePath ex_env ''/D'')) ex_case_world of
          (Inl e, w') \<Rightarrow> (Failure (ErrorText e), w')
        | (Inr p, w') \<Rightarrow> (Success (Some p), w')) = Success (Some ''/D'')"
    by code_simp
  show ?thesis
    using move_case_variant_reaches_copy_phase [OF h1 h2 h3] h2 h3 r by simp
qed

text \<open>
  Claim C4, at the root. With the base path \<open>/\<close>, the target \<open>/a\<close> is a strict descendant
  of the base path, and yet \<open>pathsConflict\<close> finds no conflict, in either direction:
  \<open>isSubdirectory\<close> appends a separator to the resolved root, which ends in one already.
  The move is carried out and returns success. For every base path and target other than
  the root, \<open>move_conflict_below_root\<close> above shows the refusal that the claim states.
\<close>

theorem move_below_root_base_not_refused:
  "getStorageBasePath ex_env (storageConfig ex_root_world) = ''/''
   \<and> strict_prefix (segs ex_env ''/'') (segs ex_env ''/a'')
   \<and> pathsConflict ex_env ''/'' ''/a'' = None
   \<and> pathsConflict ex_env ''/a'' ''/'' = None
   \<and> storage_move_data ex_env ''/a'' ex_root_world =
       (Success (Some ''/a''),
        \<lparr>fs = Dir [(''a'', Dir [(''projects'', Dir [(''p.json'', File ''P'' 864000000)]),
                                (''media'', Dir [])])],
         storageConfig =
           \<lparr>basePath = Some ''/a'', projectPath = Some [], mediaPath = Some [],
            autoCleanEnabled = None, autoCleanDays = None\<rparr>,
         configFile =
           Some \<lparr>basePath = Some ''/a'', projectPath = Some [], mediaPath = Some [],
                 autoCleanEnabled = None, autoCleanDays = None\<rparr>,
         faults = []\<rparr>)"
  by code_simp

section \<open>The tree\<close>

lemma lookup_Nil [simp]: "lookup n [] = Some n"
  by (cases n) simp_all

lemma lookup_append:
  "lookup t (p @ q) = (case lookup t p of None \<Rightarrow> None | Some n \<Rightarrow> lookup n q)"
proof (induction p arbitrary: t)
  case Nil
  then show ?case by simp
next
  case (Cons s p)
  then show ?case by (cases t) (auto split: option.splits)
qed

lemma lookup_prefix_exists:
  assumes "lookup t q = Some n" and "prefix p q"
  shows "\<exists>m. lookup t p = Some m"
proof -
  obtain r where "q = p @ r" using assms(2) by (auto simp: prefix_def)
  then show ?thesis using assms(1) by (auto simp: lookup_append split: option.splits)
qed

lemma lookup_alter_apart:
  "\<not> prefix p q \<Longrightarrow> \<not> prefix q p \<Longrightarrow> lookup (alter f p t) q = lookup t q"
proof (induction f p t arbitrary: q rule: alter.induct)
  case (1 f n)
  then show ?case by simp
next
  case (2 f s ss d t)
  then show ?case by simp
next
  case (3 f s es)
  then obtain s' q' where q: "q = s' # q'" by (cases q) auto
  with 3 have "s' \<noteq> s" by auto
  then show ?case using q
    by (auto simp: update_conv' delete_conv' split: option.splits)
next
  case (4 f s s' ss es)
  then obtain r q' where q: "q = r # q'" by (cases q) auto
  show ?case
  proof (cases "map_of es s")
    case None
    then show ?thesis by simp
  next
    case (Some c)
    show ?thesis
    proof (cases "r = s")
      case True
      then have "\<not> prefix (s' # ss) q'" "\<not> prefix q' (s' # ss)"
        using 4 q by auto
      then show ?thesis using 4(1) [OF Some] Some True q by (simp add: update_conv')
    next
      case False
      then show ?thesis using Some q by (simp add: update_conv')
    qed
  qed
qed

lemma lookup_alter_under:
  "q \<noteq> [] \<Longrightarrow> lookup (alter f (p @ q) t) p = map_option (alter f q) (lookup t p)"
proof (induction p arbitrary: t)
  case Nil
  then show ?case by simp
next
  case (Cons s p)
  then obtain s' r where pq: "p @ q = s' # r" by (cases "p @ q") auto
  show ?case
  proof (cases t)
    case (File d m)
    then show ?thesis by simp
  next
    case (Dir es)
    show ?thesis
    proof (cases "map_of es s")
      case None
      then show ?thesis using Dir pq by simp
    next
      case (Some c)
      have "lookup (alter f (p @ q) c) p = map_option (alter f q) (lookup c p)"
        using Cons by simp
      then show ?thesis using Dir Some pq by (simp add: update_conv')
    qed
  qed
qed

lemma lookup_alter_at:
  assumes "p \<noteq> []" and "lookup t (butlast p) = Some (Dir es)"
  shows "lookup (alter f p t) p = f (lookup t p)"
proof -
  have p: "p = butlast p @ [last p]" using assms(1) by simp
  have "lookup (alter f (butlast p @ [last p]) t) (butlast p)
          = map_option (alter f [last p]) (lookup t (butlast p))"
    by (rule lookup_alter_under) simp
  then have a: "lookup (alter f p t) (butlast p) = Some (alter f [last p] (Dir es))"
    using p assms(2) by simp
  have "lookup (alter f p t) (butlast p @ [last p])
          = lookup (alter f [last p] (Dir es)) [last p]"
    using a by (simp only: lookup_append option.case)
  moreover have "lookup t (butlast p @ [last p]) = lookup (Dir es) [last p]"
    using assms(2) by (simp only: lookup_append option.case)
  moreover have "lookup (alter f [last p] (Dir es)) [last p] = f (lookup (Dir es) [last p])"
    by (cases "f (map_of es (last p))")
       (auto simp: update_conv' delete_conv' split: option.splits)
  ultimately show ?thesis using p by simp
qed

lemma alter_missing:
  "lookup t p = None \<Longrightarrow> f None = None \<Longrightarrow> alter f p t = t"
proof (induction f p t rule: alter.induct)
  case (1 f n)
  then show ?case by simp
next
  case (2 f s ss d t)
  then show ?case by simp
next
  case (3 f s es)
  then have "map_of es s = None" by (simp split: option.splits)
  then have "s \<notin> fst ` set es" by (simp add: map_of_eq_None_iff)
  then show ?case using 3 \<open>map_of es s = None\<close> by simp
next
  case (4 f s s' ss es)
  then show ?case by (auto split: option.splits simp: update_triv)
qed

section \<open>mkdir -p\<close>

lemma mkdirp_frame:
  "mkdirp p t = Inr t' \<Longrightarrow> \<not> prefix q p \<Longrightarrow> lookup t' q = lookup t q"
proof (induction p t arbitrary: t' q rule: mkdirp.induct)
  case (1 es)
  then show ?case by simp
next
  case (2 d t)
  then show ?case by simp
next
  case (3 s ss d t)
  then show ?case by simp
next
  case (4 s ss es)
  let ?c = "case map_of es s of None \<Rightarrow> Dir [] | Some c \<Rightarrow> c"
  from 4(2) obtain c' where c': "mkdirp ss ?c = Inr c'" and t': "t' = Dir (AList.update s c' es)"
    by (auto split: sum.splits)
  from 4(3) obtain r q' where q: "q = r # q'" by (cases q) auto
  show ?case
  proof (cases "r = s")
    case True
    then have np: "\<not> prefix q' ss" using 4(3) q by simp
    have "lookup c' q' = lookup ?c q'" using 4(1) [OF c' np] .
    moreover have "q' \<noteq> []" using np by auto
    ultimately show ?thesis using t' q True
      by (cases q') (auto simp: update_conv' split: option.splits)
  next
    case False
    then show ?thesis using t' q by (simp add: update_conv')
  qed
qed

lemma mkdirp_is_dir:
  "mkdirp p t = Inr t' \<Longrightarrow> \<exists>es. lookup t' p = Some (Dir es)"
proof (induction p t arbitrary: t' rule: mkdirp.induct)
  case (4 s ss es)
  let ?c = "case map_of es s of None \<Rightarrow> Dir [] | Some c \<Rightarrow> c"
  from 4(2) obtain c' where c': "mkdirp ss ?c = Inr c'" and t': "t' = Dir (AList.update s c' es)"
    by (auto split: sum.splits)
  then show ?case using 4(1) [OF c'] by (simp add: update_conv')
qed auto

lemma mkdirp_creates:
  "mkdirp p t = Inr t' \<Longrightarrow> lookup t p = None \<Longrightarrow> lookup t' p = Some (Dir [])"
proof (induction p t arbitrary: t' rule: mkdirp.induct)
  case (4 s ss es)
  let ?c = "case map_of es s of None \<Rightarrow> Dir [] | Some c \<Rightarrow> c"
  from 4(2) obtain c' where c': "mkdirp ss ?c = Inr c'" and t': "t' = Dir (AList.update s c' es)"
    by (auto split: sum.splits)
  show ?case
  proof (cases "map_of es s")
    case None
    show ?thesis
    proof (cases ss)
      case Nil
      then show ?thesis using c' t' None by (simp add: update_conv')
    next
      case (Cons a list)
      then have "lookup ?c ss = None" using None by simp
      then show ?thesis using 4(1) [OF c'] t' by (simp add: update_conv')
    qed
  next
    case (Some c)
    then have "lookup ?c ss = None" using 4(3) by simp
    then show ?thesis using 4(1) [OF c'] t' by (simp add: update_conv')
  qed
qed auto


lemma mkdirp_child:
  assumes "lookup t p = Some (Dir es)" and "map_of es s = None"
  shows "\<exists>t'. mkdirp (p @ [s]) t = Inr t'"
  using assms
proof (induction p arbitrary: t)
  case Nil
  then show ?case by auto
next
  case (Cons a p)
  then obtain es' c where t: "t = Dir es'" "map_of es' a = Some c" "lookup c p = Some (Dir es)"
    by (cases t) (auto split: option.splits)
  then obtain c' where "mkdirp (p @ [s]) c = Inr c'" using Cons.IH Cons.prems(2) by blast
  then show ?case using t by simp
qed

section \<open>Copying into an empty directory\<close>

lemma stamp_node_idem: "stamp_node t (stamp_node t' n) = stamp_node t n"
  by (induction t n rule: stamp_node.induct) auto





section \<open>What an operation leaves as it is\<close>

lemma apart_sym: "apart p q \<Longrightarrow> apart q p"
  by (simp add: apart_def)

lemma keeps_at_ret: "keeps_at q (ret x)"
  by (simp add: keeps_at_def ret_def)

lemma keeps_at_throw: "keeps_at q (throw e)"
  by (simp add: keeps_at_def throw_def)

lemma keeps_at_andThen:
  assumes "keeps_at q m" and "\<And>x. keeps_at q (f x)"
  shows "keeps_at q (andThen m f)"
  unfolding keeps_at_def
proof (intro allI)
  fix w :: world
  obtain r w' where mw: "m w = (r, w')" by (cases "m w")
  have k: "lookup (fs w') q = lookup (fs w) q"
    using assms(1) mw by (auto simp: keeps_at_def dest: spec [of _ w])
  show "lookup (fs (snd (andThen m f w))) q = lookup (fs w) q"
  proof (cases r)
    case (Inl e)
    then show ?thesis using mw k by (simp add: andThen_def)
  next
    case (Inr x)
    have "lookup (fs (snd (f x w'))) q = lookup (fs w') q"
      using assms(2) [of x] by (simp add: keeps_at_def)
    then show ?thesis using mw k Inr by (simp add: andThen_def)
  qed
qed

lemma keeps_at_swallow: "keeps_at q m \<Longrightarrow> keeps_at q (swallow m)"
  by (simp add: keeps_at_def swallow_def)

lemma keeps_at_tryCatch:
  assumes "keeps_at q m" and "\<And>e. keeps_at q (h e)"
  shows "keeps_at q (tryCatch m h)"
  unfolding keeps_at_def
proof (intro allI)
  fix w :: world
  obtain r w' where mw: "m w = (r, w')" by (cases "m w")
  have k: "lookup (fs w') q = lookup (fs w) q"
    using assms(1) mw by (auto simp: keeps_at_def dest: spec [of _ w])
  show "lookup (fs (snd (tryCatch m h w))) q = lookup (fs w) q"
  proof (cases r)
    case (Inl e)
    have "lookup (fs (snd (h e w'))) q = lookup (fs w') q"
      using assms(2) [of e] by (simp add: keeps_at_def)
    then show ?thesis using mw k Inl by (simp add: tryCatch_def)
  next
    case (Inr x)
    then show ?thesis using mw k by (simp add: tryCatch_def)
  qed
qed

lemma keeps_at_exists_io: "keeps_at q (exists_io E p)"
  by (simp add: keeps_at_def exists_io_def)

lemma keeps_at_readdirTypes: "keeps_at q (readdirTypes E p)"
  by (auto simp: keeps_at_def readdirTypes_def split: option.splits node.splits)

lemma keeps_at_readdir: "keeps_at q (readdir E p)"
  by (simp add: readdir_def keeps_at_andThen keeps_at_readdirTypes keeps_at_ret)

lemma prefix_take: "prefix q (take k p) \<Longrightarrow> prefix q p"
  by (metis prefix_order.order_trans take_is_prefix)

lemma prefix_butlast: "prefix q (butlast p) \<Longrightarrow> prefix q p"
  by (metis prefix_order.order_trans prefixeq_butlast)

lemma keeps_at_mkdirSync:
  assumes "\<not> prefix q (segs E p)"
  shows "keeps_at q (mkdirSync E p)"
  unfolding keeps_at_def
proof (intro allI)
  fix w :: world
  have a: "mkdirp (take k (segs E p)) (fs w) = Inr t \<Longrightarrow> lookup t q = lookup (fs w) q" for k t
    using assms by (auto intro: mkdirp_frame dest: prefix_take)
  have b: "mkdirp (segs E p) (fs w) = Inr t \<Longrightarrow> lookup t q = lookup (fs w) q" for t
    using assms by (auto intro: mkdirp_frame)
  show "lookup (fs (snd (mkdirSync E p w))) q = lookup (fs w) q"
    using a b by (auto simp: mkdirSync_def split: prod.splits option.splits fault.splits sum.splits)
qed

lemma keeps_at_ensureDir:
  assumes "\<not> prefix q (segs E p)"
  shows "keeps_at q (ensureDir E p)"
  using keeps_at_mkdirSync [OF assms] by (simp add: keeps_at_def ensureDir_def)

lemma cp_tree_frame:
  assumes "apart q d"
  shows "lookup (snd (cp_tree t sn s d root)) q = lookup root q"
proof -
  have np: "\<not> prefix q (butlast d)" using assms by (auto simp: apart_def dest: prefix_butlast)
  have "mkdirp (butlast d) root = Inr r1 \<Longrightarrow> lookup (alter f d r1) q = lookup root q" for r1 f
    using assms np by (simp add: apart_def lookup_alter_apart mkdirp_frame)
  then show ?thesis
    by (auto simp: cp_tree_def split: sum.splits prod.splits)
qed

lemma keeps_at_cp:
  assumes "apart q (segs E dest)"
  shows "keeps_at q (cp E src dest)"
  unfolding keeps_at_def
proof (intro allI)
  fix w :: world
  have "cp_tree t sn s (segs E dest) (fs w) = (x, r) \<Longrightarrow> lookup r q = lookup (fs w) q" for t sn s x r
    using cp_tree_frame [OF assms, of t sn s "fs w"] by simp
  then show "lookup (fs (snd (cp E src dest w))) q = lookup (fs w) q"
    by (auto simp: cp_def split: prod.splits option.splits fault.splits)
qed

lemma keeps_at_rm:
  assumes "apart q (segs E p)"
  shows "keeps_at q (rm E p)"
  using assms
  by (auto simp: keeps_at_def rm_def apart_def lookup_alter_apart
      split: prod.splits option.splits fault.splits)

lemma keeps_at_unlink:
  assumes "apart q (segs E p)"
  shows "keeps_at q (unlink E p)"
  using assms
  by (auto simp: keeps_at_def unlink_def apart_def lookup_alter_apart
      split: prod.splits option.splits fault.splits node.splits)

lemma keeps_at_rmdir:
  assumes "apart q (segs E p)"
  shows "keeps_at q (rmdir E p)"
  using assms
  by (auto simp: keeps_at_def rmdir_def apart_def lookup_alter_apart
      split: prod.splits option.splits fault.splits node.splits)

lemma keeps_at_copyDir:
  assumes "apart q (segs E dest)"
  shows "keeps_at q (copyDir E src dest)"
  unfolding copyDir_def
  using assms by (intro keeps_at_andThen keeps_at_ensureDir keeps_at_cp) (auto simp: apart_def)

lemma keeps_at_removeDir:
  assumes "apart q (segs E p)"
  shows "keeps_at q (removeDir E p)"
  using keeps_at_rm [OF assms] by (simp add: removeDir_def)

lemma keeps_at_backup_root:
  assumes "apart q (segs E backupSub)"
  shows "keeps_at q (backup_root E has currentDir backupSub)"
  unfolding backup_root_def
  using assms
  by (auto intro!: keeps_at_andThen keeps_at_exists_io keeps_at_readdir keeps_at_copyDir keeps_at_ret)

lemma keeps_at_replace_root:
  assumes "apart q (segs E currentDir)"
  shows "keeps_at q (replace_root E has currentDir sourceDir)"
  unfolding replace_root_def
  using assms
  by (auto intro!: keeps_at_andThen keeps_at_swallow keeps_at_removeDir keeps_at_copyDir keeps_at_ret)

lemma keeps_at_restore_root:
  assumes "apart q (segs E currentDir)"
  shows "keeps_at q (restore_root E currentDir backupSub)"
  unfolding restore_root_def
  using assms
  by (auto intro!: keeps_at_andThen keeps_at_swallow keeps_at_removeDir keeps_at_copyDir keeps_at_ret
        keeps_at_exists_io)

section \<open>Pre- and postconditions\<close>

lemma hoareI:
  assumes "\<And>w. X w \<Longrightarrow> (case m w of (Inl e, w') \<Rightarrow> Z e w' | (Inr x, w') \<Rightarrow> Y x w')"
  shows "hoare X m Y Z"
  using assms by (simp add: hoare_def)

lemma hoareD:
  assumes "hoare X m Y Z" and "X w"
  shows "case m w of (Inl e, w') \<Rightarrow> Z e w' | (Inr x, w') \<Rightarrow> Y x w'"
  using assms by (simp add: hoare_def)

lemma hoare_ret: "hoare (Y x) (ret x) Y Z"
  by (simp add: hoare_def ret_def)

lemma hoare_throw: "hoare (Z e) (throw e) Y Z"
  by (simp add: hoare_def throw_def)

lemma hoare_andThen:
  assumes "hoare X m Y Z" and "\<And>x. hoare (Y x) (f x) Y' Z"
  shows "hoare X (andThen m f) Y' Z"
proof (rule hoareI)
  fix w assume X: "X w"
  obtain r w' where mw: "m w = (r, w')" by (cases "m w")
  show "case andThen m f w of (Inl e, w') \<Rightarrow> Z e w' | (Inr x, w') \<Rightarrow> Y' x w'"
  proof (cases r)
    case (Inl e)
    then show ?thesis using hoareD [OF assms(1) X] mw by (simp add: andThen_def)
  next
    case (Inr x)
    then have "Y x w'" using hoareD [OF assms(1) X] mw by simp
    then show ?thesis using hoareD [OF assms(2)] mw Inr by (simp add: andThen_def)
  qed
qed

lemma hoare_tryCatch:
  assumes "hoare X m Y Z" and "\<And>e. hoare (Z e) (h e) Y Z'"
  shows "hoare X (tryCatch m h) Y Z'"
proof (rule hoareI)
  fix w assume X: "X w"
  obtain r w' where mw: "m w = (r, w')" by (cases "m w")
  show "case tryCatch m h w of (Inl e, w') \<Rightarrow> Z' e w' | (Inr x, w') \<Rightarrow> Y x w'"
  proof (cases r)
    case (Inl e)
    then have "Z e w'" using hoareD [OF assms(1) X] mw by simp
    then show ?thesis using hoareD [OF assms(2)] mw Inl by (simp add: tryCatch_def)
  next
    case (Inr x)
    then show ?thesis using hoareD [OF assms(1) X] mw by (simp add: tryCatch_def)
  qed
qed

lemma hoare_swallow:
  assumes "hoare X m (\<lambda>_. Y) (\<lambda>_. Y)"
  shows "hoare X (swallow m) (\<lambda>_. Y) Z"
proof (rule hoareI)
  fix w assume X: "X w"
  show "case swallow m w of (Inl e, w') \<Rightarrow> Z e w' | (Inr x, w') \<Rightarrow> Y w'"
    using hoareD [OF assms X] by (cases "m w") (auto simp: swallow_def split: sum.splits)
qed

lemma hoare_inv:
  assumes "\<And>w. X w \<Longrightarrow> Y (snd (m w))"
  shows "hoare X m (\<lambda>_. Y) (\<lambda>_. Y)"
proof (rule hoareI)
  fix w assume "X w"
  then have "Y (snd (m w))" by (rule assms)
  then show "case m w of (Inl e, w') \<Rightarrow> Y w' | (Inr x, w') \<Rightarrow> Y w'"
    by (cases "m w") (auto split: sum.splits)
qed

lemma hoare_weaken:
  assumes "hoare X m Y Z" and "\<And>w. X' w \<Longrightarrow> X w"
    and "\<And>x w. Y x w \<Longrightarrow> Y' x w" and "\<And>e w. Z e w \<Longrightarrow> Z' e w"
  shows "hoare X' m Y' Z'"
proof (rule hoareI)
  fix w assume "X' w"
  then have "X w" by (rule assms(2))
  then have c: "case m w of (Inl e, w') \<Rightarrow> Z e w' | (Inr x, w') \<Rightarrow> Y x w'"
    by (rule hoareD [OF assms(1)])
  obtain r w' where mw: "m w = (r, w')" by (cases "m w")
  show "case m w of (Inl e, w') \<Rightarrow> Z' e w' | (Inr x, w') \<Rightarrow> Y' x w'"
    using c mw assms(3,4) by (cases r) auto
qed

lemma keeps_atD: "keeps_at q m \<Longrightarrow> lookup (fs (snd (m w))) q = lookup (fs w) q"
  by (simp add: keeps_at_def)

section \<open>Importing a source without projects\<close>

lemma lookup_alter_remove: "p \<noteq> [] \<Longrightarrow> lookup (alter (\<lambda>_. None) p t) p = None"
proof (induction "\<lambda>_::node option. None::node option" p t rule: alter.induct)
  case (1 n)
  then show ?case by simp
next
  case (2 s ss d t)
  then show ?case by simp
next
  case (3 s es)
  then show ?case by (simp add: delete_conv')
next
  case (4 s s' ss es)
  then show ?case by (auto simp: update_conv' split: option.splits)
qed

lemma backup_root_False: "backup_root E False currentDir backupSub = ret ()"
  by (auto simp: backup_root_def andThen_def exists_io_def ret_def)

lemma replace_root_False: "replace_root E False currentDir sourceDir = ret ()"
  by (simp add: replace_root_def)

lemma restore_root_absent:
  "\<not> existsSync E w backupSub \<Longrightarrow> restore_root E currentDir backupSub w = (Inr (), w)"
  by (simp add: restore_root_def andThen_def exists_io_def ret_def)

lemma plain_names [simp]:
  "plain ''projects''" "plain ''media''" "plain ''_p''" "plain ''_migrated.json''"
  by (simp_all add: plain_def)

lemma prefix_snoc_cases: "prefix p (q @ [x]) \<Longrightarrow> prefix p q \<or> p = q @ [x]"
  by (auto simp: prefix_snoc)

lemma prefix_append_cases: "prefix a (b @ c) \<Longrightarrow> prefix a b \<or> prefix b a"
  by (auto simp: prefix_append)

lemma apart_extend: "apart p q \<Longrightarrow> apart (p @ r) q"
  unfolding apart_def using prefix_append_cases [of q p r]
  by (auto dest: append_prefixD)




lemma last_neq_apart: "x \<noteq> y \<Longrightarrow> apart (p @ [x]) (p @ [y])"
  by (auto simp: apart_def)

text \<open>The paths of an import, and how they lie to each other.\<close>

lemma import_paths:
  fixes E w
  defines "P \<equiv> segs E (projectRoot E w)"
    and "M \<equiv> segs E (mediaRoot E w)"
    and "BS \<equiv> segs E (backupDir_of E)"
    and "BP \<equiv> segs E (join (backupDir_of E) ''projects'')"
    and "BM \<equiv> segs E (join (backupDir_of E) ''media'')"
  assumes pre: "lookup (fs w) P = Some n"
    and fresh: "lookup (fs w) BS = None"
    and outP: "\<not> prefix P BS"
    and outM: "\<not> prefix M BS"
  shows "apart P M" "apart P BS" "apart P BP" "apart P BM" "apart BP M" "apart BP BM"
    "apart M BS" "apart M BM" "BP = BS @ [''projects'']" "BM = BS @ [''media'']"
    "lookup (fs w) BP = None" "lookup (fs w) BM = None"
proof -
  let ?Bs = "segs E (getStorageBasePath E (storageConfig w))"
  have P: "P = ?Bs @ [''projects'']" by (simp add: P_def projectRoot_def segs_join)
  have M: "M = ?Bs @ [''media'']" by (simp add: M_def mediaRoot_def segs_join)
  show BP: "BP = BS @ [''projects'']" by (simp add: BP_def BS_def segs_join)
  show BM: "BM = BS @ [''media'']" by (simp add: BM_def BS_def segs_join)
  have nBSP: "\<not> prefix BS P"
  proof
    assume "prefix BS P"
    then obtain m where "lookup (fs w) BS = Some m"
      using lookup_prefix_exists [OF pre] by blast
    then show False using fresh by simp
  qed
  have nBSBs: "\<not> prefix BS ?Bs"
    using nBSP P by (auto simp: prefix_def)
  show "apart P M" using P M by (simp add: last_neq_apart)
  show "apart P BS" using outP nBSP by (simp add: apart_def)
  have nBSM: "\<not> prefix BS M"
  proof
    assume "prefix BS M"
    then have "prefix BS ?Bs \<or> BS = M" using M by (auto dest: prefix_snoc_cases)
    then show False using nBSBs outM by auto
  qed
  show "apart M BS" using outM nBSM by (simp add: apart_def)
  show "apart P BP"
    using outP nBSP P BP nBSBs by (auto simp: apart_def dest!: prefix_snoc_cases dest: append_prefixD)
  show "apart P BM"
    using outP nBSP P BM by (auto simp: apart_def dest!: prefix_snoc_cases dest: append_prefixD)
  show "apart BP M"
    using outM nBSM M BP by (auto simp: apart_def dest!: prefix_snoc_cases dest: append_prefixD)
  show "apart M BM"
    using outM nBSM M BM nBSBs by (auto simp: apart_def dest!: prefix_snoc_cases dest: append_prefixD)
  show "apart BP BM" using BP BM by (simp add: last_neq_apart)
  show "lookup (fs w) BP = None" using fresh BP by (simp add: lookup_append)
  show "lookup (fs w) BM = None" using fresh BM by (simp add: lookup_append)
qed

lemma snd_outcome:
  "snd (case x of (Inl e, w') \<Rightarrow> (f e, w') | (Inr u, w') \<Rightarrow> (g u, w')) = snd x"
  by (cases x) (auto split: sum.splits)

lemma getProjectDataRoot_existing:
  assumes "lookup (fs w) (segs E (projectRoot E w)) = Some n"
  shows "getProjectDataRoot E w = (Inr (projectRoot E w), w)"
  using assms
  by (simp add: getProjectDataRoot_def projectRoot_def Let_def andThen_def ensureDir_def
      existsSync_def ret_def join_nonempty)

lemma getMediaRoot_cases:
  "getMediaRoot E w =
     (case ensureDir E (mediaRoot E w) w of
        (Inl e, w1) \<Rightarrow> (Inl e, w1)
      | (Inr u, w1) \<Rightarrow> (Inr (mediaRoot E w), w1))"
  by (auto simp: getMediaRoot_def mediaRoot_def Let_def andThen_def ret_def
      split: prod.splits sum.splits)

lemma path_join_nonempty: "path_join args \<noteq> []"
  by (auto simp: path_join_def normalize_def Let_def)

text \<open>
  Claim C3, as amended. The source has no \<open>projects/\<close>, the live project root exists, the
  backup directory does not exist yet and does not lie inside a live root. Whatever fails
  on the way: when \<open>storage-import-data\<close> returns a failure, the live project root is
  exactly as it was; when it returns success, the live project root is as it was but for
  its file \<open>_p/_migrated.json\<close>, which is removed. A project root without that file is
  thus as it was in both cases.
\<close>

theorem import_media_only_project_root:
  assumes nop: "\<not> existsSync E w (join (normalizePath E sourcePath) ''projects'')"
    and pre: "lookup (fs w) (segs E (projectRoot E w)) = Some n"
    and fresh: "lookup (fs w) (segs E (backupDir_of E)) = None"
    and outP: "\<not> prefix (segs E (projectRoot E w)) (segs E (backupDir_of E))"
    and outM: "\<not> prefix (segs E (mediaRoot E w)) (segs E (backupDir_of E))"
  shows "(\<forall>m. fst (storage_import_data E sourcePath w) = Failure m \<longrightarrow>
            lookup (fs (snd (storage_import_data E sourcePath w))) (segs E (projectRoot E w))
              = Some n)
     \<and> (\<forall>x. fst (storage_import_data E sourcePath w) = Success x \<longrightarrow>
            lookup (fs (snd (storage_import_data E sourcePath w))) (segs E (projectRoot E w))
              = Some (alter (\<lambda>_. None) [''_p'', ''_migrated.json''] n))
     \<and> (lookup n [''_p'', ''_migrated.json''] = None \<longrightarrow>
            lookup (fs (snd (storage_import_data E sourcePath w))) (segs E (projectRoot E w))
              = Some n)"
proof -
  define proj where "proj = projectRoot E w"
  define media where "media = mediaRoot E w"
  define B where "B = backupDir_of E"
  define P where "P = segs E proj"
  define BP where "BP = segs E (join B ''projects'')"
  define n' where "n' = alter (\<lambda>_. None) [''_p'', ''_migrated.json''] n"
  define Q0 where "Q0 = (\<lambda>v::world. lookup (fs v) P = Some n)"
  define Q1 where "Q1 = (\<lambda>v::world. lookup (fs v) P = Some n')"
  define X where "X = (\<lambda>v::world. Q0 v \<and> lookup (fs v) BP = None)"
  note paths = import_paths [OF pre fresh outP outM, folded proj_def media_def B_def,
      folded P_def BP_def]
  have flag: "segs E (path_join [proj, ''_p'', ''_migrated.json'']) = P @ [''_p'', ''_migrated.json'']"
    unfolding P_def by (rule segs_join3) (simp_all add: proj_def projectRoot_def join_nonempty)
  have frame: "hoare X m (\<lambda>_. X) (\<lambda>_. X)" if "keeps_at P m" and "keeps_at BP m" for m :: "unit io"
    by (rule hoare_inv) (simp add: X_def Q0_def keeps_atD [OF that(1)] keeps_atD [OF that(2)])
  have frame0: "hoare X m (\<lambda>_. Q0) (\<lambda>_. Q0)" if "keeps_at P m" for m :: "unit io"
    by (rule hoare_inv) (simp add: X_def Q0_def keeps_atD [OF that])
  have frame1: "hoare Q1 m (\<lambda>_. Q1) (\<lambda>_. Q1)" if "keeps_at P m" for m :: "unit io"
    by (rule hoare_inv) (simp add: Q1_def keeps_atD [OF that])
  have clear: "hoare X (clear_migration_flag E proj) (\<lambda>_. Q1) (\<lambda>_. X)"
  proof (rule hoareI)
    fix v assume Xv: "X v"
    let ?F = "P @ [''_p'', ''_migrated.json'']"
    let ?fp = "path_join [proj, ''_p'', ''_migrated.json'']"
    have at: "lookup (fs v) P = Some n" using Xv by (simp add: X_def Q0_def)
    have below: "lookup (fs v) ?F = lookup n [''_p'', ''_migrated.json'']"
      using at by (simp add: lookup_append)
    show "case clear_migration_flag E proj v of (Inl e, w') \<Rightarrow> X w' | (Inr x, w') \<Rightarrow> Q1 w'"
    proof (cases "lookup n [''_p'', ''_migrated.json'']")
      case None
      then have "\<not> existsSync E v ?fp" using below by (simp add: existsSync_def flag)
      then have r: "clear_migration_flag E proj v = (Inr (), v)"
        by (simp add: clear_migration_flag_def Let_def andThen_def exists_io_def ret_def)
      have "n' = n" unfolding n'_def using None by (intro alter_missing) simp_all
      then show ?thesis using r at by (simp add: Q1_def)
    next
      case (Some c)
      then have ex: "existsSync E v ?fp"
        using below by (simp add: existsSync_def flag path_join_nonempty)
      then have r: "clear_migration_flag E proj v = unlink E ?fp v"
        by (simp add: clear_migration_flag_def Let_def andThen_def exists_io_def)
      have lk: "lookup (fs v) (segs E ?fp) = Some c" using below Some by (simp add: flag)
      have "lookup (alter (\<lambda>_. None) ?F (fs v)) P
              = map_option (alter (\<lambda>_. None) [''_p'', ''_migrated.json'']) (lookup (fs v) P)"
        by (rule lookup_alter_under) simp
      then have a: "lookup (alter (\<lambda>_. None) ?F (fs v)) P = Some n'"
        using at by (simp add: n'_def)
      show ?thesis
        unfolding r using Xv a lk
        by (cases c)
           (auto simp: unlink_def flag X_def Q0_def Q1_def
              split: prod.splits option.splits fault.splits)
    qed
  qed
  have steps: "hoare X
      (import_steps E False hm sp sm proj media B) (\<lambda>_. Q1) (\<lambda>_. X)" for hm sp sm
    unfolding import_steps_def backup_root_False replace_root_False
  proof (intro hoare_andThen)
    show "hoare X (ret ()) (\<lambda>_. X) (\<lambda>_. X)" by (rule hoare_ret)
    show "hoare X (backup_root E hm media (join B ''media'')) (\<lambda>_. X) (\<lambda>_. X)"
      using paths by (intro frame keeps_at_backup_root) (simp_all add: apart_sym)
    show "hoare X (ret ()) (\<lambda>_. X) (\<lambda>_. X)" by (rule hoare_ret)
    show "hoare X (replace_root E hm media sm) (\<lambda>_. X) (\<lambda>_. X)"
      using paths by (intro frame keeps_at_replace_root) (simp_all add: apart_sym media_def)
    show "hoare X (clear_migration_flag E proj) (\<lambda>_. Q1) (\<lambda>_. X)" by (rule clear)
    show "hoare Q1 (swallow (removeDir E B)) (\<lambda>_. Q1) (\<lambda>_. X)"
      using paths by (intro hoare_swallow frame1 keeps_at_removeDir) (simp_all add: B_def)
  qed
  have rollback: "hoare X
      (andThen (import_rollback E proj media B) (\<lambda>_. throw e)) (\<lambda>_. Q1) (\<lambda>_. Q0)" for e
    unfolding import_rollback_def Let_def
  proof (intro hoare_andThen)
    show "hoare X (restore_root E proj (join B ''projects'')) (\<lambda>_. X) (\<lambda>_. Q0)"
    proof (rule hoareI)
      fix v assume Xv: "X v"
      then have "\<not> existsSync E v (join B ''projects'')"
        by (simp add: X_def existsSync_def BP_def)
      then show "case restore_root E proj (join B ''projects'') v of
                   (Inl e, w') \<Rightarrow> Q0 w' | (Inr x, w') \<Rightarrow> X w'"
        using Xv by (simp add: restore_root_absent)
    qed
    show "hoare X (restore_root E media (join B ''media'')) (\<lambda>_. X) (\<lambda>_. Q0)"
      using paths
      by (intro hoare_weaken [OF frame] keeps_at_restore_root)
         (simp_all add: apart_sym media_def X_def)
    show "hoare X (swallow (removeDir E B)) (\<lambda>_. Q0) (\<lambda>_. Q0)"
      using paths by (intro hoare_swallow frame0 keeps_at_removeDir) (simp_all add: B_def)
    show "hoare Q0 (throw e) (\<lambda>_. Q1) (\<lambda>_. Q0)" by (rule hoare_throw)
  qed
  have body: "hoare X
      (tryCatch (import_steps E False hm sp sm proj media B)
         (\<lambda>importError. andThen (import_rollback E proj media B) (\<lambda>_. throw importError)))
      (\<lambda>_. Q1) (\<lambda>_. Q0)" for hm sp sm
    by (rule hoare_tryCatch [OF steps rollback])
  have X0: "X w"
    using pre paths by (simp add: X_def Q0_def P_def proj_def BP_def B_def)
  obtain r1 w1 where e1: "ensureDir E media w = (r1, w1)" by (cases "ensureDir E media w")
  have X1: "X w1"
  proof -
    have "keeps_at P (ensureDir E media)" "keeps_at BP (ensureDir E media)"
      using paths by (auto intro!: keeps_at_ensureDir simp: apart_def media_def)
    then show ?thesis using X0 e1 by (auto simp: X_def Q0_def dest!: keeps_atD [where w = w])
  qed
  have Q00: "Q0 w" using X0 by (simp add: X_def)
  let ?K = "\<lambda>hm sp sm. andThen (getProjectDataRoot E) (\<lambda>currentProjectsDir.
                andThen (getMediaRoot E) (\<lambda>currentMediaDir.
                  tryCatch
                    (import_steps E False hm sp sm currentProjectsDir currentMediaDir B)
                    (\<lambda>importError.
                       andThen (import_rollback E currentProjectsDir currentMediaDir B)
                         (\<lambda>_. throw importError))))"
  have K: "case ?K hm sp sm w of (Inl e, w') \<Rightarrow> Q0 w' | (Inr u, w') \<Rightarrow> Q1 w'" for hm sp sm
  proof (cases r1)
    case (Inl e)
    then show ?thesis
      using e1 X1 getProjectDataRoot_existing [OF pre]
      by (simp add: andThen_def getMediaRoot_cases media_def proj_def X_def)
  next
    case (Inr u)
    have "case tryCatch (import_steps E False hm sp sm proj media B)
         (\<lambda>importError. andThen (import_rollback E proj media B) (\<lambda>_. throw importError)) w1
          of (Inl e, w') \<Rightarrow> Q0 w' | (Inr x, w') \<Rightarrow> Q1 w'"
      by (rule hoareD [OF body X1])
    then show ?thesis
      using e1 Inr getProjectDataRoot_existing [OF pre]
      by (simp add: andThen_def getMediaRoot_cases media_def proj_def)
  qed
  let ?R = "storage_import_data E sourcePath w"
  have res: "case ?R of (Failure m, w') \<Rightarrow> Q0 w' | (Success x, w') \<Rightarrow> Q1 w'"
  proof (cases "sourcePath = [] \<or> \<not> existsSync E w (join (normalizePath E sourcePath) ''media'')")
    case True
    then show ?thesis using nop Q00 by (auto simp: storage_import_data_def Let_def)
  next
    case False
    let ?hm = "existsSync E w (join (normalizePath E sourcePath) ''media'')"
    let ?sp = "join (normalizePath E sourcePath) ''projects''"
    let ?sm = "join (normalizePath E sourcePath) ''media''"
    have "?R = (case ?K ?hm ?sp ?sm w of
                  (Inl e, w') \<Rightarrow> (Failure (ErrorText e), w')
                | (Inr u, w') \<Rightarrow> (Success None, w'))"
      using False nop by (simp add: storage_import_data_def Let_def B_def)
    then show ?thesis using K [of ?hm ?sp ?sm]
      by (cases "?K ?hm ?sp ?sm w") (auto split: sum.splits)
  qed
  have f: "lookup (fs (snd ?R)) P = Some n" if "fst ?R = Failure m" for m
    using res that by (cases ?R) (auto simp: Q0_def)
  have s: "lookup (fs (snd ?R)) P = Some n'" if "fst ?R = Success x" for x
    using res that by (cases ?R) (auto simp: Q1_def)
  have k: "lookup (fs (snd ?R)) P = Some n" if "lookup n [''_p'', ''_migrated.json''] = None"
  proof -
    have "n' = n" unfolding n'_def using that by (intro alter_missing) simp_all
    then show ?thesis using f s by (cases "fst ?R") auto
  qed
  show ?thesis using f s k by (simp add: P_def proj_def n'_def)
qed

text \<open>
  Claim C3, as stated, fails: the source has \<open>media/\<close> and no \<open>projects/\<close>, and the import
  removes the file \<open>_p/_migrated.json\<close> of the live project root.
\<close>

theorem import_media_only_clears_flag:
  "existsSync ex_env ex_flag_world (join (normalizePath ex_env ''/src'') ''media'')
   \<and> \<not> existsSync ex_env ex_flag_world (join (normalizePath ex_env ''/src'') ''projects'')
   \<and> lookup (fs ex_flag_world) [''d'', ''projects'', ''_p'', ''_migrated.json''] = Some (File ''{}'' 1)
   \<and> fst (storage_import_data ex_env ''/src'' ex_flag_world) = Success None
   \<and> lookup (fs (snd (storage_import_data ex_env ''/src'' ex_flag_world)))
         [''d'', ''projects'', ''_p'', ''_migrated.json''] = None"
  by code_simp

theorem import_media_only_project_root_witness:
  "\<not> existsSync ex_env ex_flag_world (join (normalizePath ex_env ''/src'') ''projects'')
   \<and> lookup (fs ex_flag_world) (segs ex_env (projectRoot ex_env ex_flag_world))
       = Some (Dir [(''_p'', Dir [(''_migrated.json'', File ''{}'' 1), (''p1'', Dir [])])])
   \<and> lookup (fs ex_flag_world) (segs ex_env (backupDir_of ex_env)) = None
   \<and> \<not> prefix (segs ex_env (projectRoot ex_env ex_flag_world)) (segs ex_env (backupDir_of ex_env))
   \<and> \<not> prefix (segs ex_env (mediaRoot ex_env ex_flag_world)) (segs ex_env (backupDir_of ex_env))
   \<and> fst (storage_import_data ex_env ''/src'' ex_flag_world) = Success None
   \<and> lookup (fs (snd (storage_import_data ex_env ''/src'' ex_flag_world)))
         (segs ex_env (projectRoot ex_env ex_flag_world))
       = Some (Dir [(''_p'', Dir [(''p1'', Dir [])])])
   \<and> \<not> existsSync ex_env ex_flag_fault_world (join (normalizePath ex_env ''/src'') ''projects'')
   \<and> lookup (fs ex_flag_fault_world) (segs ex_env (projectRoot ex_env ex_flag_fault_world))
       = Some (Dir [(''_p'', Dir [(''_migrated.json'', File ''{}'' 1), (''p1'', Dir [])])])
   \<and> lookup (fs ex_flag_fault_world) (segs ex_env (backupDir_of ex_env)) = None
   \<and> \<not> prefix (segs ex_env (projectRoot ex_env ex_flag_fault_world))
         (segs ex_env (backupDir_of ex_env))
   \<and> \<not> prefix (segs ex_env (mediaRoot ex_env ex_flag_fault_world))
         (segs ex_env (backupDir_of ex_env))
   \<and> fst (storage_import_data ex_env ''/src'' ex_flag_fault_world)
       = Failure (ErrorText (Injected 28))
   \<and> lookup (fs (snd (storage_import_data ex_env ''/src'' ex_flag_fault_world)))
         (segs ex_env (projectRoot ex_env ex_flag_fault_world))
       = Some (Dir [(''_p'', Dir [(''_migrated.json'', File ''{}'' 1), (''p1'', Dir [])])])"
proof -
  let ?n = "Dir [(''_p'', Dir [(''_migrated.json'', File ''{}'' 1), (''p1'', Dir [])])]"
  have h1: "\<not> existsSync ex_env ex_flag_world (join (normalizePath ex_env ''/src'') ''projects'')"
    by code_simp
  have h2: "lookup (fs ex_flag_world) (segs ex_env (projectRoot ex_env ex_flag_world)) = Some ?n"
    by code_simp
  have h3: "lookup (fs ex_flag_world) (segs ex_env (backupDir_of ex_env)) = None"
    by code_simp
  have h4: "\<not> prefix (segs ex_env (projectRoot ex_env ex_flag_world)) (segs ex_env (backupDir_of ex_env))"
    by code_simp
  have h5: "\<not> prefix (segs ex_env (mediaRoot ex_env ex_flag_world)) (segs ex_env (backupDir_of ex_env))"
    by code_simp
  have o1: "fst (storage_import_data ex_env ''/src'' ex_flag_world) = Success None"
    by code_simp
  have a1: "alter (\<lambda>_. None) [''_p'', ''_migrated.json''] ?n = Dir [(''_p'', Dir [(''p1'', Dir [])])]"
    by simp
  have g1: "\<not> existsSync ex_env ex_flag_fault_world (join (normalizePath ex_env ''/src'') ''projects'')"
    by code_simp
  have g2: "lookup (fs ex_flag_fault_world) (segs ex_env (projectRoot ex_env ex_flag_fault_world))
              = Some ?n"
    by code_simp
  have g3: "lookup (fs ex_flag_fault_world) (segs ex_env (backupDir_of ex_env)) = None"
    by code_simp
  have g4: "\<not> prefix (segs ex_env (projectRoot ex_env ex_flag_fault_world))
         (segs ex_env (backupDir_of ex_env))"
    by code_simp
  have g5: "\<not> prefix (segs ex_env (mediaRoot ex_env ex_flag_fault_world))
         (segs ex_env (backupDir_of ex_env))"
    by code_simp
  have o2: "fst (storage_import_data ex_env ''/src'' ex_flag_fault_world)
              = Failure (ErrorText (Injected 28))"
    by code_simp
  note t1 = import_media_only_project_root [OF h1 h2 h3 h4 h5, THEN conjunct2, THEN conjunct1,
      rule_format, OF o1, unfolded a1]
  note t2 = import_media_only_project_root [OF g1 g2 g3 g4 g5, THEN conjunct1, rule_format, OF o2]
  show ?thesis
    by (rule conjI [OF h1 conjI [OF h2 conjI [OF h3 conjI [OF h4 conjI [OF h5 conjI [OF o1
          conjI [OF t1 conjI [OF g1 conjI [OF g2 conjI [OF g3 conjI [OF g4 conjI [OF g5
          conjI [OF o2 t2]]]]]]]]]]]]])
qed

section \<open>The effect of an operation that no fault hits\<close>

lemma take_fault_nohit: "k \<notin> fst ` set fl \<Longrightarrow> take_fault k fl = (None, fl)"
  by (induction fl) auto

lemma rm_nohit:
  "OpRm p \<notin> fst ` set (faults v) \<Longrightarrow>
   rm E p v = (Inr (), v\<lparr>fs := alter (\<lambda>_. None) (segs E p) (fs v)\<rparr>)"
  by (simp add: rm_def take_fault_nohit)

lemma mkdirSync_nohit:
  "OpMkdir p \<notin> fst ` set (faults v) \<Longrightarrow>
   mkdirSync E p v =
     (case mkdirp (segs E p) (fs v) of Inl e \<Rightarrow> (Inl e, v) | Inr t \<Rightarrow> (Inr (), v\<lparr>fs := t\<rparr>))"
  by (simp add: mkdirSync_def take_fault_nohit)


lemma lookup_below_dir:
  "lookup t (q @ r) = Some n \<Longrightarrow> r \<noteq> [] \<Longrightarrow> \<exists>es. lookup t q = Some (Dir es)"
proof (induction q arbitrary: t)
  case Nil
  then show ?case by (cases t; cases r) auto
next
  case (Cons a q)
  then show ?case by (cases t) (auto split: option.splits)
qed

lemma parent_dir:
  assumes "lookup t d = Some x" and "d \<noteq> []"
  shows "\<exists>es. lookup t (butlast d) = Some (Dir es)"
  using lookup_below_dir [of t "butlast d" "[last d]" x] assms by simp

lemma is_dir_at_iff: "is_dir_at t q \<longleftrightarrow> (\<exists>es. lookup t q = Some (Dir es))"
  by (auto simp: is_dir_at_def split: option.splits node.splits)

lemma alter_Dir: "r \<noteq> [] \<Longrightarrow> \<exists>es'. alter f r (Dir es) = Dir es'"
  by (cases r; cases "tl r") (auto split: option.splits)

lemma is_dir_alter:
  assumes "\<not> prefix p q" and "is_dir_at t q"
  shows "is_dir_at (alter f p t) q"
proof (cases "prefix q p")
  case True
  then obtain r where p: "p = q @ r" by (auto simp: prefix_def)
  then have r: "r \<noteq> []" using assms(1) by auto
  obtain es where es: "lookup t q = Some (Dir es)" using assms(2) by (auto simp: is_dir_at_iff)
  have "lookup (alter f (q @ r) t) q = map_option (alter f r) (lookup t q)"
    using r by (rule lookup_alter_under)
  then show ?thesis using es p alter_Dir [OF r, of f es] by (auto simp: is_dir_at_iff)
next
  case False
  then show ?thesis using assms by (simp add: is_dir_at_def lookup_alter_apart)
qed

lemma is_dir_mkdirp:
  assumes "mkdirp p t = Inr t'" and "is_dir_at t q"
  shows "is_dir_at t' q"
proof (cases "prefix q p")
  case True
  then obtain r where p: "p = q @ r" by (auto simp: prefix_def)
  obtain es where es: "lookup t' p = Some (Dir es)" using mkdirp_is_dir [OF assms(1)] by blast
  show ?thesis
  proof (cases "r = []")
    case True
    then show ?thesis using es p by (simp add: is_dir_at_iff)
  next
    case False
    then show ?thesis using lookup_below_dir [of t' q r] es p by (simp add: is_dir_at_iff)
  qed
next
  case False
  then show ?thesis using assms mkdirp_frame [OF assms(1) False] by (simp add: is_dir_at_def)
qed


text \<open>A directory that is absent below an existing directory can be made.\<close>

lemma mkdirp_absent_child:
  assumes "is_dir_at t (butlast p)" and "lookup t p = None" and "p \<noteq> []"
  shows "\<exists>t'. mkdirp p t = Inr t'"
proof -
  obtain es where es: "lookup t (butlast p) = Some (Dir es)"
    using assms(1) by (auto simp: is_dir_at_iff)
  have "lookup t (butlast p @ [last p]) = None" using assms(2,3) by simp
  then have "map_of es (last p) = None"
    using es by (simp add: lookup_append split: option.splits)
  then have "\<exists>t'. mkdirp (butlast p @ [last p]) t = Inr t'"
    using es by (intro mkdirp_child)
  then show ?thesis using assms(3) by simp
qed

section \<open>Directories that stay\<close>












section \<open>Backup, replacement and restoration of one root\<close>





section \<open>A failed import is rolled back\<close>




lemma content_at_stamped:
  "lookup t q = Some (stamp_node s n) \<Longrightarrow> content_at t q = Some (stamp_node 0 n)"
  by (simp add: content_at_def stamp_node_idem)


section \<open>The error of a failed import\<close>














section \<open>The size of a directory\<close>

lemma readdirTypes_Dir:
  "lookup (fs w) (segs E p) = Some (Dir es) \<Longrightarrow>
   readdirTypes E p w = (Inr (map (\<lambda>e. (fst e, is_dir (snd e))) es), w)"
  by (simp add: readdirTypes_def case_prod_beta)

lemma lookup_child:
  "lookup t D = Some (Dir es) \<Longrightarrow> lookup t (D @ [n]) = map_of es n"
  by (simp add: lookup_append split: option.splits)

lemma map_of_mid:
  "nm \<notin> fst ` set pre \<Longrightarrow> map_of (pre @ (nm, c) # es) nm = Some c"
  by (induction pre) auto

lemma size_entries_spec:
  assumes "\<And>E w p es. lookup (fs w) (segs E p) = Some (Dir es) \<Longrightarrow> wf_entries es \<Longrightarrow>
             entries_depth es < n \<Longrightarrow> getDirectorySize n E w p = Some (entries_size es)"
  shows "lookup (fs w) (segs E p) = Some (Dir (pre @ es)) \<Longrightarrow> wf_entries es \<Longrightarrow>
         fst ` set pre \<inter> fst ` set es = {} \<Longrightarrow> entries_depth es \<le> n \<Longrightarrow>
         size_entries n E w p (map (\<lambda>e. (fst e, is_dir (snd e))) es) acc
           = Some (acc + entries_size es)"
proof (induction es arbitrary: pre acc rule: entries_size.induct)
  case 1
  then show ?case by simp
next
  case (2 nm d t es)
  have pl: "plain nm" using 2(3) by simp
  have m: "map_of (pre @ (nm, File d t) # es) nm = Some (File d t)"
    using 2(4) by (intro map_of_mid) auto
  have st: "stat E (join p nm) w = (Inr (length d, t), w)"
    using lookup_child [OF 2(2), of nm] m by (simp add: stat_def segs_join [OF pl])
  have "size_entries n E w p (map (\<lambda>e. (fst e, is_dir (snd e))) es) (acc + length d)
          = Some (acc + length d + entries_size es)"
  proof (rule 2(1) [of "pre @ [(nm, File d t)]"])
    show "lookup (fs w) (segs E p) = Some (Dir ((pre @ [(nm, File d t)]) @ es))"
      using 2(2) by simp
    show "wf_entries es" using 2(3) by simp
    show "fst ` set (pre @ [(nm, File d t)]) \<inter> fst ` set es = {}" using 2(3,4) by auto
    show "entries_depth es \<le> n" using 2(5) by simp
  qed
  then show ?case using st by simp
next
  case (3 nm ds es)
  have pl: "plain nm" using 3(4) by simp
  have m: "map_of (pre @ (nm, Dir ds) # es) nm = Some (Dir ds)"
    using 3(5) by (intro map_of_mid) auto
  have "lookup (fs w) (segs E (join p nm)) = Some (Dir ds)"
    using lookup_child [OF 3(3), of nm] m by (simp add: segs_join [OF pl])
  then have g: "getDirectorySize n E w (join p nm) = Some (entries_size ds)"
    using 3(4,6) by (intro assms) auto
  have "size_entries n E w p (map (\<lambda>e. (fst e, is_dir (snd e))) es) (acc + entries_size ds)
          = Some (acc + entries_size ds + entries_size es)"
  proof (rule 3(2) [of "pre @ [(nm, Dir ds)]"])
    show "lookup (fs w) (segs E p) = Some (Dir ((pre @ [(nm, Dir ds)]) @ es))"
      using 3(3) by simp
    show "wf_entries es" using 3(4) by simp
    show "fst ` set (pre @ [(nm, Dir ds)]) \<inter> fst ` set es = {}" using 3(4,5) by auto
    show "entries_depth es \<le> n" using 3(6) by simp
  qed
  then show ?case using g by simp
qed

lemma getDirectorySize_spec:
  "lookup (fs w) (segs E p) = Some (Dir es) \<Longrightarrow> wf_entries es \<Longrightarrow> entries_depth es < n \<Longrightarrow>
   getDirectorySize n E w p = Some (entries_size es)"
proof (induction n arbitrary: E w p es)
  case 0
  then show ?case by simp
next
  case (Suc n)
  have "size_entries n E w p (map (\<lambda>e. (fst e, is_dir (snd e))) es) 0 = Some (0 + entries_size es)"
    using Suc.prems by (intro size_entries_spec [of n w E p "[]" es] Suc.IH) auto
  then show ?case using Suc.prems by (simp add: readdirTypes_Dir)
qed

lemma getDirectorySize_other:
  assumes "\<not> is_dir_at (fs w) (segs E p)"
  shows "getDirectorySize (Suc n) E w p = Some 0"
  using assms
  by (auto simp: readdirTypes_def is_dir_at_def split: option.splits node.splits)

lemma getDirectorySize_dir_size:
  assumes "case lookup (fs w) (segs E p) of
             Some (Dir es) \<Rightarrow> wf_entries es \<and> entries_depth es < n | _ \<Rightarrow> True"
    and "0 < n"
  shows "getDirectorySize n E w p = Some (dir_size (fs w) (segs E p))"
proof (cases "is_dir_at (fs w) (segs E p)")
  case True
  then obtain es where "lookup (fs w) (segs E p) = Some (Dir es)" by (auto simp: is_dir_at_iff)
  then show ?thesis using assms(1) by (simp add: dir_size_def getDirectorySize_spec)
next
  case False
  obtain m where "n = Suc m" using assms(2) by (cases n) auto
  then show ?thesis using getDirectorySize_other [OF False]
    using False by (auto simp: dir_size_def is_dir_at_def split: option.splits node.splits)
qed

section \<open>Changing one entry of a directory\<close>

lemma update_update: "AList.update k v (AList.update k v' al) = AList.update k v al"
  by (induction al) auto

lemma update_mid:
  "nm \<notin> fst ` set pre \<Longrightarrow> AList.update nm x (pre @ (nm, y) # es) = pre @ (nm, x) # es"
  by (induction pre) auto

lemma delete_mid:
  "nm \<notin> fst ` set pre \<Longrightarrow> nm \<notin> fst ` set es \<Longrightarrow>
   AList.delete nm (pre @ (nm, y) # es) = pre @ es"
  by (induction pre) (auto simp: delete_id)

lemma alter_child:
  "lookup t D = Some (Dir L) \<Longrightarrow>
   alter f (D @ [nm]) t =
     alter (\<lambda>_. Some (Dir (case f (map_of L nm) of
                               None \<Rightarrow> AList.delete nm L
                             | Some c \<Rightarrow> AList.update nm c L))) D t"
proof (induction D arbitrary: t)
  case Nil
  then show ?case by simp
next
  case (Cons s D)
  then obtain es0 c where t: "t = Dir es0" "map_of es0 s = Some c" "lookup c D = Some (Dir L)"
    by (cases t) (auto split: option.splits)
  show ?case
  proof (cases D)
    case Nil
    then show ?thesis using t by simp
  next
    case (Cons s' D')
    then obtain a r where dn: "D @ [nm] = a # r" by simp
    have "alter f (D @ [nm]) c =
        alter (\<lambda>_. Some (Dir (case f (map_of L nm) of
                               None \<Rightarrow> AList.delete nm L
                             | Some c \<Rightarrow> AList.update nm c L))) D c"
      using Cons.IH [OF t(3)] .
    then show ?thesis using t Cons by simp
  qed
qed

lemma alter_const_twice:
  "alter (\<lambda>_. Some Y) D (alter (\<lambda>_. Some X) D t) = alter (\<lambda>_. Some Y) D t"
proof (induction D arbitrary: t)
  case Nil
  then show ?case by simp
next
  case (Cons s D)
  show ?case
  proof (cases t)
    case (File d m)
    then show ?thesis by simp
  next
    case (Dir es)
    show ?thesis
    proof (cases D)
      case Nil
      then show ?thesis using Dir by (simp add: update_update)
    next
      case (Cons s' D')
      show ?thesis
      proof (cases "map_of es s")
        case None
        then show ?thesis using Dir Cons by simp
      next
        case (Some c)
        then show ?thesis
          using Dir Cons Cons.IH [of c] by (simp add: update_conv' update_update)
      qed
    qed
  qed
qed

lemma alter_const_same:
  "lookup t D = Some X \<Longrightarrow> alter (\<lambda>_. Some X) D t = t"
proof (induction D arbitrary: t)
  case Nil
  then show ?case by simp
next
  case (Cons s D)
  then obtain es c where t: "t = Dir es" "map_of es s = Some c" "lookup c D = Some X"
    by (cases t) (auto split: option.splits)
  show ?case
  proof (cases D)
    case Nil
    then show ?thesis using t by (simp add: update_triv)
  next
    case (Cons s' D')
    then show ?thesis using t Cons.IH [OF t(3)] by (simp add: update_triv)
  qed
qed

lemma lookup_alter_const:
  assumes "lookup t D = Some y"
  shows "lookup (alter (\<lambda>_. Some X) D t) D = Some X"
proof (cases "D = []")
  case True
  then show ?thesis by simp
next
  case False
  obtain es where "lookup t (butlast D) = Some (Dir es)"
    using parent_dir [OF assms False] by blast
  then show ?thesis using lookup_alter_at [OF False, of t es] by simp
qed

section \<open>Pruning by age\<close>

lemma unlink_file:
  "faults w = [] \<Longrightarrow> lookup (fs w) (segs E p) = Some (File d t) \<Longrightarrow>
   snd (swallow (unlink E p) w) = w\<lparr>fs := alter (\<lambda>_. None) (segs E p) (fs w)\<rparr>"
  by (simp add: swallow_def unlink_def)

lemma rmdir_empty:
  "faults w = [] \<Longrightarrow> lookup (fs w) (segs E p) = Some (Dir []) \<Longrightarrow>
   snd (swallow (rmdir E p) w) = w\<lparr>fs := alter (\<lambda>_. None) (segs E p) (fs w)\<rparr>"
  by (simp add: swallow_def rmdir_def)

lemma readdir_Dir:
  "lookup (fs w) (segs E p) = Some (Dir es) \<Longrightarrow> readdir E p w = (Inr (map fst es), w)"
  by (simp add: readdir_def readdirTypes_Dir andThen_def ret_def comp_def)

lemma delete_entries_spec:
  assumes IH: "\<And>E w p es c. faults w = [] \<Longrightarrow> lookup (fs w) (segs E p) = Some (Dir es) \<Longrightarrow>
      wf_entries es \<Longrightarrow> entries_depth es < n \<Longrightarrow>
      deleteOldFiles n E p c w
        = Some (old_size c es, w\<lparr>fs := alter (\<lambda>_. Some (Dir (prune_entries c es))) (segs E p) (fs w)\<rparr>)"
  shows "faults w = [] \<Longrightarrow> lookup t0 (segs E p) = Some y \<Longrightarrow>
     fs w = alter (\<lambda>_. Some (Dir (pre @ es))) (segs E p) t0 \<Longrightarrow>
     wf_entries es \<Longrightarrow> fst ` set pre \<inter> fst ` set es = {} \<Longrightarrow> entries_depth es \<le> n \<Longrightarrow>
     delete_entries n E p c (map (\<lambda>e. (fst e, is_dir (snd e))) es) cleared w
       = Some (cleared + old_size c es,
               w\<lparr>fs := alter (\<lambda>_. Some (Dir (pre @ prune_entries c es))) (segs E p) t0\<rparr>)"
proof (induction c es arbitrary: pre cleared w rule: prune_entries.induct)
  case (1 c)
  then show ?case by simp
next
  case (2 c nm d t es)
  let ?D = "segs E p"
  have pl: "plain nm" using 2(6) by simp
  have np: "nm \<notin> fst ` set pre" using 2(7) by auto
  have ne: "nm \<notin> fst ` set es" using 2(6) by simp
  have lD: "lookup (fs w) ?D = Some (Dir (pre @ (nm, File d t) # es))"
    using 2(4,5) by (simp add: lookup_alter_const)
  have sj: "segs E (join p nm) = ?D @ [nm]" by (rule segs_join [OF pl])
  have lc: "lookup (fs w) (segs E (join p nm)) = Some (File d t)"
    using lookup_child [OF lD, of nm] map_of_mid [OF np] by (simp add: sj)
  have st: "stat E (join p nm) w = (Inr (length d, t), w)"
    using lc by (simp add: stat_def)
  show ?case
  proof (cases "t < c")
    case True
    let ?w1 = "w\<lparr>fs := alter (\<lambda>_. Some (Dir (pre @ es))) ?D t0\<rparr>"
    have "alter (\<lambda>_. None) (?D @ [nm]) (fs w)
            = alter (\<lambda>_. Some (Dir (AList.delete nm (pre @ (nm, File d t) # es)))) ?D (fs w)"
      using alter_child [OF lD, of "\<lambda>_. None" nm] by simp
    also have "\<dots> = alter (\<lambda>_. Some (Dir (pre @ es))) ?D t0"
      using 2(5) by (simp add: delete_mid [OF np ne] alter_const_twice)
    finally have u: "snd (swallow (unlink E (join p nm)) w) = ?w1"
      using unlink_file [OF 2(3) lc] by (simp add: sj)
    have "delete_entries n E p c (map (\<lambda>e. (fst e, is_dir (snd e))) es) (cleared + length d) ?w1
            = Some (cleared + length d + old_size c es,
                    ?w1\<lparr>fs := alter (\<lambda>_. Some (Dir (pre @ prune_entries c es))) ?D t0\<rparr>)"
      using 2(3,4,6,7,8) True by (intro 2(1)) auto
    then show ?thesis using st u True by simp
  next
    case False
    have "delete_entries n E p c (map (\<lambda>e. (fst e, is_dir (snd e))) es) cleared w
            = Some (cleared + old_size c es,
                    w\<lparr>fs := alter (\<lambda>_. Some (Dir ((pre @ [(nm, File d t)]) @ prune_entries c es))) ?D t0\<rparr>)"
      using 2(3,4,5,6,7,8) False ne by (intro 2(2)) auto
    then show ?thesis using st False by simp
  qed
next
  case (3 c nm ds es)
  note nf3 = 3(5) and lk3 = 3(6) and fs3 = 3(7) and wf3 = 3(8) and dj3 = 3(9) and dp3 = 3(10)
  let ?D = "segs E p"
  have pl: "plain nm" using wf3 by simp
  have np: "nm \<notin> fst ` set pre" using dj3 by auto
  have ne: "nm \<notin> fst ` set es" using wf3 by simp
  have lD: "lookup (fs w) ?D = Some (Dir (pre @ (nm, Dir ds) # es))"
    using lk3 fs3 by (simp add: lookup_alter_const)
  have sj: "segs E (join p nm) = ?D @ [nm]" by (rule segs_join [OF pl])
  have lc: "lookup (fs w) (segs E (join p nm)) = Some (Dir ds)"
    using lookup_child [OF lD, of nm] map_of_mid [OF np] by (simp add: sj)
  let ?pd = "prune_entries c ds"
  let ?w1 = "w\<lparr>fs := alter (\<lambda>_. Some (Dir (pre @ (nm, Dir ?pd) # es))) ?D t0\<rparr>"
  have "alter (\<lambda>_. Some (Dir ?pd)) (?D @ [nm]) (fs w)
          = alter (\<lambda>_. Some (Dir (AList.update nm (Dir ?pd) (pre @ (nm, Dir ds) # es)))) ?D (fs w)"
    using alter_child [OF lD, of "\<lambda>_. Some (Dir ?pd)" nm] by simp
  also have "\<dots> = alter (\<lambda>_. Some (Dir (pre @ (nm, Dir ?pd) # es))) ?D t0"
    using fs3 by (simp add: update_mid [OF np] alter_const_twice)
  finally have a1: "alter (\<lambda>_. Some (Dir ?pd)) (?D @ [nm]) (fs w)
      = alter (\<lambda>_. Some (Dir (pre @ (nm, Dir ?pd) # es))) ?D t0" .
  have wds: "wf_entries ds" using wf3 by simp
  have dds: "entries_depth ds < n" using dp3 by simp
  have x: "deleteOldFiles n E (join p nm) c w
      = Some (old_size c ds, w\<lparr>fs := alter (\<lambda>_. Some (Dir ?pd)) (segs E (join p nm)) (fs w)\<rparr>)"
    by (rule IH [OF nf3 lc wds dds])
  have rec: "deleteOldFiles n E (join p nm) c w = Some (old_size c ds, ?w1)"
    by (simp only: x sj a1)
  have lD1: "lookup (fs ?w1) ?D = Some (Dir (pre @ (nm, Dir ?pd) # es))"
    using lk3 by (simp add: lookup_alter_const)
  have lc1: "lookup (fs ?w1) (segs E (join p nm)) = Some (Dir ?pd)"
    using lookup_child [OF lD1, of nm] map_of_mid [OF np] by (simp add: sj)
  have rd: "readdir E (join p nm) ?w1 = (Inr (map fst ?pd), ?w1)"
    by (rule readdir_Dir [OF lc1])
  show ?case
  proof (cases "?pd = []")
    case True
    let ?w2 = "w\<lparr>fs := alter (\<lambda>_. Some (Dir (pre @ es))) ?D t0\<rparr>"
    have "alter (\<lambda>_. None) (?D @ [nm]) (fs ?w1)
            = alter (\<lambda>_. Some (Dir (AList.delete nm (pre @ (nm, Dir ?pd) # es)))) ?D (fs ?w1)"
      using alter_child [OF lD1, of "\<lambda>_. None" nm] by simp
    also have "\<dots> = alter (\<lambda>_. Some (Dir (pre @ es))) ?D t0"
      by (simp add: delete_mid [OF np ne] alter_const_twice)
    finally have u: "snd (swallow (rmdir E (join p nm)) ?w1) = ?w2"
      using rmdir_empty [of ?w1 E "join p nm"] lc1 nf3 True by (simp add: sj)
    have "delete_entries n E p c (map (\<lambda>e. (fst e, is_dir (snd e))) es) (cleared + old_size c ds) ?w2
            = Some (cleared + old_size c ds + old_size c es,
                    ?w2\<lparr>fs := alter (\<lambda>_. Some (Dir (pre @ prune_entries c es))) ?D t0\<rparr>)"
      using nf3 lk3 wf3 dj3 dp3 True by (intro 3(2)) auto
    then show ?thesis using rec rd u True by simp
  next
    case False
    have "delete_entries n E p c (map (\<lambda>e. (fst e, is_dir (snd e))) es) (cleared + old_size c ds) ?w1
            = Some (cleared + old_size c ds + old_size c es,
                    ?w1\<lparr>fs := alter (\<lambda>_. Some (Dir ((pre @ [(nm, Dir ?pd)]) @ prune_entries c es))) ?D t0\<rparr>)"
      using nf3 lk3 wf3 dj3 dp3 False ne by (intro 3(4)) auto
    then show ?thesis using rec rd False by simp
  qed
qed

lemma deleteOldFiles_spec:
  "faults w = [] \<Longrightarrow> lookup (fs w) (segs E p) = Some (Dir es) \<Longrightarrow>
   wf_entries es \<Longrightarrow> entries_depth es < n \<Longrightarrow>
   deleteOldFiles n E p c w
     = Some (old_size c es, w\<lparr>fs := alter (\<lambda>_. Some (Dir (prune_entries c es))) (segs E p) (fs w)\<rparr>)"
proof (induction n arbitrary: E w p es c)
  case 0
  then show ?case by simp
next
  case (Suc n)
  have "fs w = alter (\<lambda>_. Some (Dir ([] @ es))) (segs E p) (fs w)"
    using Suc.prems(2) by (simp add: alter_const_same)
  then have "delete_entries n E p c (map (\<lambda>e. (fst e, is_dir (snd e))) es) 0 w
       = Some (0 + old_size c es,
               w\<lparr>fs := alter (\<lambda>_. Some (Dir ([] @ prune_entries c es))) (segs E p) (fs w)\<rparr>)"
    using Suc.prems by (intro delete_entries_spec [where y = "Dir es"] Suc.IH) auto
  then show ?case using Suc.prems by (simp add: readdirTypes_Dir)
qed

lemma deleteOldFiles_other:
  assumes "\<not> is_dir_at (fs w) (segs E p)"
  shows "deleteOldFiles (Suc n) E p c w = Some (0, w)"
  using assms
  by (auto simp: readdirTypes_def is_dir_at_def split: option.splits node.splits)

section \<open>What pruning keeps\<close>

lemma wf_entries_names:
  "wf_entries es \<Longrightarrow> distinct (map fst es)"
  by (induction es rule: wf_entries.induct) auto

lemma prune_names: "fst ` set (prune_entries c es) \<subseteq> fst ` set es"
  by (induction c es rule: prune_entries.induct) auto

lemma map_of_prune:
  "wf_entries es \<Longrightarrow>
   map_of (prune_entries c es) nm =
     (case map_of es nm of
        None \<Rightarrow> None
      | Some (File d t) \<Rightarrow> (if t < c then None else Some (File d t))
      | Some (Dir ds) \<Rightarrow> (if prune_entries c ds = [] then None else Some (Dir (prune_entries c ds))))"
proof (induction c es rule: prune_entries.induct)
  case (1 c)
  then show ?case by simp
next
  case (2 c n d t es)
  have "n \<notin> fst ` set (prune_entries c es)" using 2(3) prune_names [of c es] by auto
  then have "map_of (prune_entries c es) n = None" by (simp add: map_of_eq_None_iff)
  then show ?case using 2 by auto
next
  case (3 c n ds es)
  have "n \<notin> fst ` set (prune_entries c es)" using 3(5) prune_names [of c es] by auto
  then have "map_of (prune_entries c es) n = None" by (simp add: map_of_eq_None_iff)
  then show ?case using 3 by auto
qed

lemma wf_entries_child:
  "wf_entries es \<Longrightarrow> map_of es nm = Some (Dir ds) \<Longrightarrow> wf_entries ds"
  by (induction es rule: wf_entries.induct) (auto split: if_splits)

text \<open>Below a pruned directory, the files are the files of before that are not old.\<close>

lemma pruned_files:
  "wf_entries es \<Longrightarrow> r \<noteq> [] \<Longrightarrow>
   lookup (Dir (prune_entries c es)) r = Some (File d t)
     \<longleftrightarrow> lookup (Dir es) r = Some (File d t) \<and> \<not> t < c"
proof (induction r arbitrary: es)
  case Nil
  then show ?case by simp
next
  case (Cons nm r)
  show ?case
  proof (cases "map_of es nm")
    case None
    then show ?thesis using Cons.prems by (simp add: map_of_prune)
  next
    case (Some ch)
    show ?thesis
    proof (cases ch)
      case (File d' t')
      then show ?thesis using Some Cons.prems by (cases r) (auto simp: map_of_prune)
    next
      case (Dir ds)
      have w: "wf_entries ds" using wf_entries_child [OF Cons.prems(1)] Some Dir by simp
      show ?thesis
      proof (cases "r = []")
        case True
        then show ?thesis using Some Dir Cons.prems by (simp add: map_of_prune)
      next
        case False
        have e: "prune_entries c ds = [] \<Longrightarrow> lookup (Dir []) r = Some (File d t) \<longleftrightarrow> False"
          using False by (cases r) auto
        show ?thesis
          using Some Dir Cons.prems Cons.IH [OF w False] e False
          by (cases "prune_entries c ds = []") (auto simp: map_of_prune)
      qed
    qed
  qed
qed

text \<open>Below a pruned directory, no directory is empty.\<close>

lemma pruned_no_empty_dir:
  "wf_entries es \<Longrightarrow> r \<noteq> [] \<Longrightarrow> lookup (Dir (prune_entries c es)) r \<noteq> Some (Dir [])"
proof (induction r arbitrary: es)
  case Nil
  then show ?case by simp
next
  case (Cons nm r)
  show ?case
  proof (cases "map_of es nm")
    case None
    then show ?thesis using Cons.prems by (simp add: map_of_prune)
  next
    case (Some ch)
    show ?thesis
    proof (cases ch)
      case (File d' t')
      then show ?thesis using Some Cons.prems by (cases r) (auto simp: map_of_prune)
    next
      case (Dir ds)
      have w: "wf_entries ds" using wf_entries_child [OF Cons.prems(1)] Some Dir by simp
      show ?thesis
      proof (cases "r = []")
        case True
        then show ?thesis using Some Dir Cons.prems by (simp add: map_of_prune)
      next
        case False
        then show ?thesis
          using Some Dir Cons.prems Cons.IH [OF w False]
          by (cases "prune_entries c ds = []") (auto simp: map_of_prune)
      qed
    qed
  qed
qed

section \<open>clearCache over the cache directories\<close>

lemma plain_cache_names [simp]:
  "plain ''Cache''" "plain ''Code Cache''" "plain ''GPUCache''"
  by (simp_all add: plain_def)

lemma apart_butlast: "apart p q \<Longrightarrow> \<not> prefix p (butlast q)"
  using prefix_butlast [of p q] by (auto simp: apart_def)

lemma recreate_effect:
  assumes nf: "faults w = []" and p: "p \<noteq> []" and D: "segs E p \<noteq> []"
    and par: "is_dir_at (fs w) (butlast (segs E p))"
  shows "\<exists>w'. andThen (swallow (removeDir E p)) (\<lambda>_. ensureDir E p) w = (Inr (), w')
           \<and> faults w' = []
           \<and> lookup (fs w') (segs E p) = Some (Dir [])
           \<and> (\<forall>q. apart q (segs E p) \<longrightarrow> lookup (fs w') q = lookup (fs w) q)
           \<and> (\<forall>q. \<not> prefix (segs E p) q \<longrightarrow> is_dir_at (fs w) q \<longrightarrow> is_dir_at (fs w') q)"
proof -
  let ?D = "segs E p"
  let ?t1 = "alter (\<lambda>_. None) ?D (fs w)"
  let ?w1 = "w\<lparr>fs := ?t1\<rparr>"
  have r: "removeDir E p w = (Inr (), ?w1)"
    using nf by (simp add: removeDir_def rm_nohit)
  have gone: "lookup ?t1 ?D = None" using D by (rule lookup_alter_remove)
  have "length (butlast ?D) < length ?D" using D by simp
  then have nb: "\<not> prefix ?D (butlast ?D)" by (auto dest: prefix_length_le)
  have par1: "is_dir_at ?t1 (butlast ?D)" using nb par by (rule is_dir_alter)
  obtain t2 where t2: "mkdirp ?D ?t1 = Inr t2"
    using mkdirp_absent_child [OF par1 gone D] by blast
  let ?w2 = "?w1\<lparr>fs := t2\<rparr>"
  have e: "ensureDir E p ?w1 = (Inr (), ?w2)"
    using nf gone t2 by (simp add: ensureDir_def existsSync_def mkdirSync_nohit)
  have run: "andThen (swallow (removeDir E p)) (\<lambda>_. ensureDir E p) w = (Inr (), ?w2)"
    using r e by (simp add: andThen_def swallow_def)
  have made: "lookup t2 ?D = Some (Dir [])" using t2 gone by (rule mkdirp_creates)
  have frame: "lookup t2 q = lookup (fs w) q" if "apart q ?D" for q
  proof -
    have "lookup t2 q = lookup ?t1 q" using t2 that by (auto simp: apart_def intro: mkdirp_frame)
    also have "\<dots> = lookup (fs w) q" using that by (auto simp: apart_def intro: lookup_alter_apart)
    finally show ?thesis .
  qed
  have dirs: "is_dir_at t2 q" if "\<not> prefix ?D q" and "is_dir_at (fs w) q" for q
  proof -
    have "is_dir_at ?t1 q" using that by (rule is_dir_alter)
    then show ?thesis using t2 by (rule is_dir_mkdirp [rotated])
  qed
  show ?thesis
    apply (rule exI [of _ ?w2])
    using run nf made frame dirs by simp
qed

lemma dir_ok_cong: "lookup t q = lookup t' q \<Longrightarrow> dir_ok n t q = dir_ok n t' q"
  by (simp add: dir_ok_def)

lemma dir_size_cong: "lookup t q = lookup t' q \<Longrightarrow> dir_size t q = dir_size t' q"
  by (simp add: dir_size_def)

lemma old_size_at_cong: "lookup t q = lookup t' q \<Longrightarrow> old_size_at c t q = old_size_at c t' q"
  by (simp add: old_size_at_def)

lemma clear_all_effect:
  assumes n: "0 < n"
  shows "faults w = [] \<Longrightarrow> distinct dirs
    \<Longrightarrow> (\<forall>p\<in>set dirs. \<forall>q\<in>set dirs. p \<noteq> q \<longrightarrow> apart (segs E p) (segs E q))
    \<Longrightarrow> (\<forall>p\<in>set dirs. p \<noteq> [] \<and> segs E p \<noteq> [] \<and> is_dir_at (fs w) (butlast (segs E p))
            \<and> dir_ok n (fs w) (segs E p))
    \<Longrightarrow> \<exists>w'. clear_all n E dirs acc w
                = Some (Inr (acc + sum_list (map (\<lambda>p. dir_size (fs w) (segs E p)) dirs)), w')
           \<and> faults w' = []
           \<and> (\<forall>p\<in>set dirs. lookup (fs w') (segs E p) = Some (Dir []))
           \<and> (\<forall>q. (\<forall>p\<in>set dirs. apart q (segs E p)) \<longrightarrow> lookup (fs w') q = lookup (fs w) q)"
proof (induction dirs arbitrary: w acc)
  case Nil
  then show ?case by simp
next
  case (Cons dir dirs)
  let ?D = "segs E dir"
  have ok: "dir_ok n (fs w) ?D" and p: "dir \<noteq> []" and D: "?D \<noteq> []"
    and par: "is_dir_at (fs w) (butlast ?D)"
    using Cons.prems(4) by auto
  have sz: "getDirectorySize n E w dir = Some (dir_size (fs w) ?D)"
    using ok n by (intro getDirectorySize_dir_size) (simp_all add: dir_ok_def)
  obtain w1 where run: "andThen (swallow (removeDir E dir)) (\<lambda>_. ensureDir E dir) w = (Inr (), w1)"
    and nf1: "faults w1 = []"
    and made: "lookup (fs w1) ?D = Some (Dir [])"
    and frame: "\<And>q. apart q ?D \<Longrightarrow> lookup (fs w1) q = lookup (fs w) q"
    and keep: "\<And>q. \<not> prefix ?D q \<Longrightarrow> is_dir_at (fs w) q \<Longrightarrow> is_dir_at (fs w1) q"
    using recreate_effect [OF Cons.prems(1) p D par] by blast
  have ap: "apart (segs E q) ?D" if "q \<in> set dirs" for q
  proof -
    have "q \<noteq> dir" using that Cons.prems(2) by auto
    then show ?thesis using that Cons.prems(3) by simp
  qed
  have same: "lookup (fs w1) (segs E q) = lookup (fs w) (segs E q)" if "q \<in> set dirs" for q
    using frame [OF ap [OF that]] .
  have d': "distinct dirs" using Cons.prems(2) by simp
  have a': "\<forall>p\<in>set dirs. \<forall>q\<in>set dirs. p \<noteq> q \<longrightarrow> apart (segs E p) (segs E q)"
    using Cons.prems(3) by simp
  have c': "\<forall>q\<in>set dirs. q \<noteq> [] \<and> segs E q \<noteq> [] \<and> is_dir_at (fs w1) (butlast (segs E q))
              \<and> dir_ok n (fs w1) (segs E q)"
  proof
    fix q assume q: "q \<in> set dirs"
    have o: "q \<noteq> [] \<and> segs E q \<noteq> [] \<and> is_dir_at (fs w) (butlast (segs E q))
              \<and> dir_ok n (fs w) (segs E q)"
      using Cons.prems(4) q by simp
    have "\<not> prefix ?D (butlast (segs E q))"
      using ap [OF q] by (intro apart_butlast) (rule apart_sym)
    then have "is_dir_at (fs w1) (butlast (segs E q))" using o by (intro keep) simp_all
    moreover have "dir_ok n (fs w1) (segs E q)"
      using o dir_ok_cong [OF same [OF q]] by simp
    ultimately show "q \<noteq> [] \<and> segs E q \<noteq> [] \<and> is_dir_at (fs w1) (butlast (segs E q))
              \<and> dir_ok n (fs w1) (segs E q)"
      using o by simp
  qed
  obtain w' where
    r: "clear_all n E dirs (acc + dir_size (fs w) ?D) w1
          = Some (Inr (acc + dir_size (fs w) ?D
                        + sum_list (map (\<lambda>p. dir_size (fs w1) (segs E p)) dirs)), w')"
    and nf': "faults w' = []"
    and e': "\<forall>p\<in>set dirs. lookup (fs w') (segs E p) = Some (Dir [])"
    and f': "\<forall>q. (\<forall>p\<in>set dirs. apart q (segs E p)) \<longrightarrow> lookup (fs w') q = lookup (fs w1) q"
    using Cons.IH [OF nf1 d' a' c', of "acc + dir_size (fs w) ?D"] by blast
  have sums: "map (\<lambda>p. dir_size (fs w1) (segs E p)) dirs = map (\<lambda>p. dir_size (fs w) (segs E p)) dirs"
    using same by (intro map_cong refl dir_size_cong) simp
  have apD: "\<forall>p\<in>set dirs. apart ?D (segs E p)" using ap apart_sym by blast
  have atD: "lookup (fs w') ?D = Some (Dir [])" using f' apD made by simp
  have res: "clear_all n E (dir # dirs) acc w
          = Some (Inr (acc + sum_list (map (\<lambda>p. dir_size (fs w) (segs E p)) (dir # dirs))), w')"
    using sz run r sums by (simp add: add.assoc)
  have fr: "lookup (fs w') q = lookup (fs w) q" if "\<forall>p\<in>set (dir # dirs). apart q (segs E p)" for q
  proof -
    have "lookup (fs w') q = lookup (fs w1) q" using f' that by simp
    also have "\<dots> = lookup (fs w) q" using frame that by simp
    finally show ?thesis .
  qed
  show ?case
    apply (rule exI [of _ w'])
    using res nf' e' atD fr by simp
qed

lemma prune_effect:
  assumes n: "0 < n" and nf: "faults w = []" and ok: "dir_ok n (fs w) (segs E p)"
  shows "\<exists>w'. deleteOldFiles n E p c w = Some (old_size_at c (fs w) (segs E p), w')
           \<and> faults w' = []
           \<and> lookup (fs w') (segs E p) = map_option (pruned c) (lookup (fs w) (segs E p))
           \<and> (\<forall>q. apart q (segs E p) \<longrightarrow> lookup (fs w') q = lookup (fs w) q)"
proof (cases "is_dir_at (fs w) (segs E p)")
  case True
  then obtain es where es: "lookup (fs w) (segs E p) = Some (Dir es)"
    by (auto simp: is_dir_at_iff)
  have wf: "wf_entries es" and dp: "entries_depth es < n" using ok es by (simp_all add: dir_ok_def)
  let ?w' = "w\<lparr>fs := alter (\<lambda>_. Some (Dir (prune_entries c es))) (segs E p) (fs w)\<rparr>"
  have r: "deleteOldFiles n E p c w = Some (old_size c es, ?w')"
    using nf es wf dp by (rule deleteOldFiles_spec)
  have at: "lookup (fs ?w') (segs E p) = Some (Dir (prune_entries c es))"
    using es by (simp add: lookup_alter_const)
  have fr: "lookup (fs ?w') q = lookup (fs w) q" if "apart q (segs E p)" for q
    using that by (auto simp: apart_def intro: lookup_alter_apart)
  show ?thesis
    apply (rule exI [of _ ?w'])
    using r at fr nf es by (simp add: old_size_at_def)
next
  case False
  obtain m where m: "n = Suc m" using n by (cases n) auto
  have r: "deleteOldFiles n E p c w = Some (0, w)"
    unfolding m using False by (rule deleteOldFiles_other)
  have o: "old_size_at c (fs w) (segs E p) = 0"
    using False by (auto simp: old_size_at_def is_dir_at_def split: option.splits node.splits)
  have k: "map_option (pruned c) (lookup (fs w) (segs E p)) = lookup (fs w) (segs E p)"
    using False by (auto simp: is_dir_at_def split: option.splits node.splits)
  show ?thesis
    apply (rule exI [of _ w])
    using r o k nf by simp
qed

lemma clear_by_age_effect:
  assumes n: "0 < n"
  shows "faults w = [] \<Longrightarrow> distinct dirs
    \<Longrightarrow> (\<forall>p\<in>set dirs. \<forall>q\<in>set dirs. p \<noteq> q \<longrightarrow> apart (segs E p) (segs E q))
    \<Longrightarrow> (\<forall>p\<in>set dirs. dir_ok n (fs w) (segs E p))
    \<Longrightarrow> \<exists>w'. clear_by_age n E c dirs acc w
                = Some (Inr (acc + sum_list (map (\<lambda>p. old_size_at c (fs w) (segs E p)) dirs)), w')
           \<and> faults w' = []
           \<and> (\<forall>p\<in>set dirs. lookup (fs w') (segs E p)
                               = map_option (pruned c) (lookup (fs w) (segs E p)))
           \<and> (\<forall>q. (\<forall>p\<in>set dirs. apart q (segs E p)) \<longrightarrow> lookup (fs w') q = lookup (fs w) q)"
proof (induction dirs arbitrary: w acc)
  case Nil
  then show ?case by simp
next
  case (Cons dir dirs)
  let ?D = "segs E dir"
  have ok: "dir_ok n (fs w) ?D" using Cons.prems(4) by simp
  obtain w1 where run: "deleteOldFiles n E dir c w = Some (old_size_at c (fs w) ?D, w1)"
    and nf1: "faults w1 = []"
    and made: "lookup (fs w1) ?D = map_option (pruned c) (lookup (fs w) ?D)"
    and frame: "\<And>q. apart q ?D \<Longrightarrow> lookup (fs w1) q = lookup (fs w) q"
    using prune_effect [OF n Cons.prems(1) ok, of c] by blast
  have ap: "apart (segs E q) ?D" if "q \<in> set dirs" for q
  proof -
    have "q \<noteq> dir" using that Cons.prems(2) by auto
    then show ?thesis using that Cons.prems(3) by simp
  qed
  have same: "lookup (fs w1) (segs E q) = lookup (fs w) (segs E q)" if "q \<in> set dirs" for q
    using frame [OF ap [OF that]] .
  have d': "distinct dirs" using Cons.prems(2) by simp
  have a': "\<forall>p\<in>set dirs. \<forall>q\<in>set dirs. p \<noteq> q \<longrightarrow> apart (segs E p) (segs E q)"
    using Cons.prems(3) by simp
  have c': "\<forall>q\<in>set dirs. dir_ok n (fs w1) (segs E q)"
    using Cons.prems(4) dir_ok_cong [OF same] by simp
  obtain w' where
    r: "clear_by_age n E c dirs (acc + old_size_at c (fs w) ?D) w1
          = Some (Inr (acc + old_size_at c (fs w) ?D
                        + sum_list (map (\<lambda>p. old_size_at c (fs w1) (segs E p)) dirs)), w')"
    and nf': "faults w' = []"
    and e': "\<forall>p\<in>set dirs. lookup (fs w') (segs E p)
                              = map_option (pruned c) (lookup (fs w1) (segs E p))"
    and f': "\<forall>q. (\<forall>p\<in>set dirs. apart q (segs E p)) \<longrightarrow> lookup (fs w') q = lookup (fs w1) q"
    using Cons.IH [OF nf1 d' a' c', of "acc + old_size_at c (fs w) ?D"] by blast
  have sums: "map (\<lambda>p. old_size_at c (fs w1) (segs E p)) dirs
                = map (\<lambda>p. old_size_at c (fs w) (segs E p)) dirs"
    using same by (intro map_cong refl old_size_at_cong) simp
  have apD: "\<forall>p\<in>set dirs. apart ?D (segs E p)" using ap apart_sym by blast
  have atD: "lookup (fs w') ?D = map_option (pruned c) (lookup (fs w) ?D)"
    using f' apD made by simp
  have e'': "\<forall>p\<in>set dirs. lookup (fs w') (segs E p)
                              = map_option (pruned c) (lookup (fs w) (segs E p))"
    using e' same by simp
  have res: "clear_by_age n E c (dir # dirs) acc w
          = Some (Inr (acc + sum_list (map (\<lambda>p. old_size_at c (fs w) (segs E p)) (dir # dirs))), w')"
    using run r sums by (simp add: add.assoc)
  have fr: "lookup (fs w') q = lookup (fs w) q" if "\<forall>p\<in>set (dir # dirs). apart q (segs E p)" for q
  proof -
    have "lookup (fs w') q = lookup (fs w1) q" using f' that by simp
    also have "\<dots> = lookup (fs w) q" using frame that by simp
    finally show ?thesis .
  qed
  show ?case
    apply (rule exI [of _ w'])
    using res nf' e'' atD fr by simp
qed

section \<open>The two modes of clearCache\<close>

lemma cache_dirs_segs:
  "map (segs E) (getCacheDirs E)
     = [segs E (userData E) @ [''Cache''], segs E (userData E) @ [''Code Cache''],
        segs E (userData E) @ [''GPUCache'']]"
  by (simp add: getCacheDirs_def segs_join)

lemma cache_dirs_distinct: "distinct (getCacheDirs E)"
proof -
  have "distinct (map (segs E) (getCacheDirs E))" by (simp add: cache_dirs_segs)
  then show ?thesis by (rule distinct_map [THEN iffD1, THEN conjunct1])
qed

lemma cache_dirs_apart:
  "\<forall>p\<in>set (getCacheDirs E). \<forall>q\<in>set (getCacheDirs E). p \<noteq> q \<longrightarrow> apart (segs E p) (segs E q)"
  by (auto simp: getCacheDirs_def segs_join intro!: last_neq_apart)

lemma cache_dirs_parent:
  "p \<in> set (getCacheDirs E) \<Longrightarrow>
   p \<noteq> [] \<and> segs E p \<noteq> [] \<and> butlast (segs E p) = segs E (userData E)"
  by (auto simp: getCacheDirs_def segs_join join_nonempty)

lemma pruned_below:
  assumes after: "lookup t' D = map_option (pruned c) (lookup t D)"
    and ok: "dir_ok n t D" and r: "r \<noteq> []"
  shows "(lookup t' (D @ r) = Some (File f m)) = (lookup t (D @ r) = Some (File f m) \<and> \<not> m < c)"
    and "lookup t' (D @ r) \<noteq> Some (Dir [])"
proof -
  obtain s ss where rs: "r = s # ss" using r by (cases r) auto
  show "(lookup t' (D @ r) = Some (File f m)) = (lookup t (D @ r) = Some (File f m) \<and> \<not> m < c)"
  proof (cases "lookup t D")
    case None
    then show ?thesis using after by (simp add: lookup_append)
  next
    case (Some nd)
    show ?thesis
    proof (cases nd)
      case (File d' t')
      then show ?thesis using Some after rs by (simp add: lookup_append)
    next
      case (Dir es)
      have wf: "wf_entries es" using ok Some Dir by (simp add: dir_ok_def)
      show ?thesis using Some Dir after pruned_files [OF wf r, of c f m]
        by (simp add: lookup_append)
    qed
  qed
  show "lookup t' (D @ r) \<noteq> Some (Dir [])"
  proof (cases "lookup t D")
    case None
    then show ?thesis using after by (simp add: lookup_append)
  next
    case (Some nd)
    show ?thesis
    proof (cases nd)
      case (File d' t')
      then show ?thesis using Some after rs by (simp add: lookup_append)
    next
      case (Dir es)
      have wf: "wf_entries es" using ok Some Dir by (simp add: dir_ok_def)
      show ?thesis using Some Dir after pruned_no_empty_dir [OF wf r, of c]
        by (simp add: lookup_append)
    qed
  qed
qed

text \<open>
  Claim C6. In a run without failing file operations, on cache directories whose trees
  are well formed and not deeper than the bound of the recursion:
  without a threshold, when the user data directory is a directory, \<open>clearCache\<close> returns
  the bytes of all files below the cache directories, as they were before, and leaves every
  cache directory present and empty;
  with a threshold of \<open>d > 0\<close> days it returns the bytes of the files below the cache
  directories whose modification time is before \<open>now - d\<close> days, and below every cache
  directory the files afterwards are the files of before that are not older than that, and
  no empty directory is left (\<open>pruned\<close> deletes the old files, then, from the bottom up,
  the directories that are empty, also those that were empty before).
\<close>

theorem clearCache_clears:
  assumes "faults w = []" and "0 < n"
    and "\<forall>p\<in>set (getCacheDirs E). dir_ok n (fs w) (segs E p)"
  shows
    "(is_dir_at (fs w) (segs E (userData E)) \<longrightarrow>
        (\<exists>w'. clearCache n E None w
                 = Some (Inr (sum_list (map (\<lambda>p. dir_size (fs w) (segs E p)) (getCacheDirs E))), w')
             \<and> (\<forall>p\<in>set (getCacheDirs E). lookup (fs w') (segs E p) = Some (Dir []))))
     \<and> (0 < d \<longrightarrow>
        (\<exists>w'. clearCache n E (Some d) w
                 = Some (Inr (sum_list (map (\<lambda>p. old_size_at (now E - d * 24 * 60 * 60 * 1000)
                                                 (fs w) (segs E p)) (getCacheDirs E))), w')
             \<and> (\<forall>p\<in>set (getCacheDirs E).
                   lookup (fs w') (segs E p)
                     = map_option (pruned (now E - d * 24 * 60 * 60 * 1000)) (lookup (fs w) (segs E p))
                   \<and> (\<forall>r f m. r \<noteq> [] \<longrightarrow>
                        (lookup (fs w') (segs E p @ r) = Some (File f m))
                          = (lookup (fs w) (segs E p @ r) = Some (File f m)
                             \<and> \<not> m < now E - d * 24 * 60 * 60 * 1000))
                   \<and> (\<forall>r. r \<noteq> [] \<longrightarrow> lookup (fs w') (segs E p @ r) \<noteq> Some (Dir [])))))"
proof (intro conjI impI)
  assume ud: "is_dir_at (fs w) (segs E (userData E))"
  have c: "\<forall>p\<in>set (getCacheDirs E). p \<noteq> [] \<and> segs E p \<noteq> []
             \<and> is_dir_at (fs w) (butlast (segs E p)) \<and> dir_ok n (fs w) (segs E p)"
    using ud assms(3) cache_dirs_parent [of _ E] by simp
  obtain w' where
    "clear_all n E (getCacheDirs E) 0 w
       = Some (Inr (0 + sum_list (map (\<lambda>p. dir_size (fs w) (segs E p)) (getCacheDirs E))), w')"
    and "\<forall>p\<in>set (getCacheDirs E). lookup (fs w') (segs E p) = Some (Dir [])"
    using clear_all_effect [OF assms(2) assms(1) cache_dirs_distinct cache_dirs_apart c, of 0]
    by blast
  then show "\<exists>w'. clearCache n E None w
                 = Some (Inr (sum_list (map (\<lambda>p. dir_size (fs w) (segs E p)) (getCacheDirs E))), w')
             \<and> (\<forall>p\<in>set (getCacheDirs E). lookup (fs w') (segs E p) = Some (Dir []))"
    by (auto simp: clearCache_def)
next
  assume d: "0 < d"
  let ?c = "now E - d * 24 * 60 * 60 * 1000"
  obtain w' where
    r: "clear_by_age n E ?c (getCacheDirs E) 0 w
       = Some (Inr (0 + sum_list (map (\<lambda>p. old_size_at ?c (fs w) (segs E p)) (getCacheDirs E))), w')"
    and a: "\<forall>p\<in>set (getCacheDirs E). lookup (fs w') (segs E p)
                               = map_option (pruned ?c) (lookup (fs w) (segs E p))"
    using clear_by_age_effect [OF assms(2) assms(1) cache_dirs_distinct cache_dirs_apart assms(3),
        of ?c 0]
    by blast
  have run: "clearCache n E (Some d) w
       = Some (Inr (sum_list (map (\<lambda>p. old_size_at ?c (fs w) (segs E p)) (getCacheDirs E))), w')"
    using r d by (simp add: clearCache_def)
  have b: "lookup (fs w') (segs E p) = map_option (pruned ?c) (lookup (fs w) (segs E p))
           \<and> (\<forall>r f m. r \<noteq> [] \<longrightarrow>
                (lookup (fs w') (segs E p @ r) = Some (File f m))
                  = (lookup (fs w) (segs E p @ r) = Some (File f m) \<and> \<not> m < ?c))
           \<and> (\<forall>r. r \<noteq> [] \<longrightarrow> lookup (fs w') (segs E p @ r) \<noteq> Some (Dir []))"
    if p: "p \<in> set (getCacheDirs E)" for p
  proof -
    have l: "lookup (fs w') (segs E p) = map_option (pruned ?c) (lookup (fs w) (segs E p))"
      using a p by simp
    have ok: "dir_ok n (fs w) (segs E p)" using assms(3) p by simp
    show ?thesis using l pruned_below [OF l ok] by blast
  qed
  show "\<exists>w'. clearCache n E (Some d) w
                 = Some (Inr (sum_list (map (\<lambda>p. old_size_at ?c (fs w) (segs E p)) (getCacheDirs E))), w')
             \<and> (\<forall>p\<in>set (getCacheDirs E).
                   lookup (fs w') (segs E p) = map_option (pruned ?c) (lookup (fs w) (segs E p))
                   \<and> (\<forall>r f m. r \<noteq> [] \<longrightarrow>
                        (lookup (fs w') (segs E p @ r) = Some (File f m))
                          = (lookup (fs w) (segs E p @ r) = Some (File f m) \<and> \<not> m < ?c))
                   \<and> (\<forall>r. r \<noteq> [] \<longrightarrow> lookup (fs w') (segs E p @ r) \<noteq> Some (Dir [])))"
    apply (rule exI [of _ w'])
    using run b by blast
qed

lemma clearCache_age_example:
  "clearCache 3 ex_env (Some 1) ex_cache_world =
     Some (Inr 7,
           ex_cache_world\<lparr>fs := Dir [(''ud'',
             Dir [(''Cache'', Dir [(''new'', File ''zzz'' 864000000)]), (''GPUCache'', Dir [])])]\<rparr>)"
  by code_simp

theorem clearCache_clears_witness:
  "faults ex_cache_world = [] \<and> 0 < (3::nat)
   \<and> dir_ok 3 (fs ex_cache_world) (segs ex_env (join (userData ex_env) ''Cache''))
   \<and> dir_ok 3 (fs ex_cache_world) (segs ex_env (join (userData ex_env) ''Code Cache''))
   \<and> dir_ok 3 (fs ex_cache_world) (segs ex_env (join (userData ex_env) ''GPUCache''))
   \<and> is_dir_at (fs ex_cache_world) (segs ex_env (userData ex_env)) \<and> 0 < (1::int)
   \<and> (\<exists>w'. clearCache 3 ex_env None ex_cache_world = Some (Inr 10, w')
          \<and> (\<forall>p\<in>set (getCacheDirs ex_env). lookup (fs w') (segs ex_env p) = Some (Dir [])))
   \<and> (\<exists>w'. clearCache 3 ex_env (Some 1) ex_cache_world = Some (Inr 7, w')
          \<and> (\<forall>p\<in>set (getCacheDirs ex_env).
                lookup (fs w') (segs ex_env p)
                  = map_option (pruned 777600000) (lookup (fs ex_cache_world) (segs ex_env p))
                \<and> (\<forall>r f m. r \<noteq> [] \<longrightarrow>
                     (lookup (fs w') (segs ex_env p @ r) = Some (File f m))
                       = (lookup (fs ex_cache_world) (segs ex_env p @ r) = Some (File f m)
                          \<and> \<not> m < 777600000))
                \<and> (\<forall>r. r \<noteq> [] \<longrightarrow> lookup (fs w') (segs ex_env p @ r) \<noteq> Some (Dir []))))"
proof -
  have h1: "faults ex_cache_world = []" by code_simp
  have h2: "0 < (3::nat)" by simp
  have k1: "dir_ok 3 (fs ex_cache_world) (segs ex_env (join (userData ex_env) ''Cache''))"
    by code_simp
  have k2: "dir_ok 3 (fs ex_cache_world) (segs ex_env (join (userData ex_env) ''Code Cache''))"
    by code_simp
  have k3: "dir_ok 3 (fs ex_cache_world) (segs ex_env (join (userData ex_env) ''GPUCache''))"
    by code_simp
  have h3: "\<forall>p\<in>set (getCacheDirs ex_env). dir_ok 3 (fs ex_cache_world) (segs ex_env p)"
    using k1 k2 k3 by (simp add: getCacheDirs_def)
  have h4: "is_dir_at (fs ex_cache_world) (segs ex_env (userData ex_env))" by code_simp
  have h5: "0 < (1::int)" by simp
  have s1: "sum_list (map (\<lambda>p. dir_size (fs ex_cache_world) (segs ex_env p)) (getCacheDirs ex_env))
              = 10"
    by code_simp
  have s2: "sum_list (map (\<lambda>p. old_size_at (now ex_env - 1 * 24 * 60 * 60 * 1000)
                                 (fs ex_cache_world) (segs ex_env p)) (getCacheDirs ex_env)) = 7"
    by code_simp
  have c: "now ex_env - 1 * 24 * 60 * 60 * 1000 = 777600000" by (simp add: ex_env_def)
  note t = clearCache_clears [OF h1 h2 h3, of 1]
  note a = t [THEN conjunct1, THEN mp, OF h4, unfolded s1]
  note b = t [THEN conjunct2, THEN mp, OF h5, unfolded s2, unfolded c]
  show ?thesis
    by (rule conjI [OF h1 conjI [OF h2 conjI [OF k1 conjI [OF k2 conjI [OF k3
          conjI [OF h4 conjI [OF h5 conjI [OF a b]]]]]]]])
qed

end
